theory Spec2Isabelle
  imports Main
begin

section \<open>Python primitives used by hl7.py\<close>

text \<open>
  Python strings are modelled as \<open>string\<close> (lists of 8-bit characters, read as the code
  points 0..255), so the two line boundaries of \<open>str.splitlines\<close> above U+00FF are not
  representable. Python lists are HOL lists, Python dictionaries are association lists in
  insertion order, and every exception is a value of type \<open>error\<close>.
\<close>

datatype error = IndexError | KeyError | ValueError

abbreviation LF :: char where "LF \<equiv> CHR 0x0A"
abbreviation CR :: char where "CR \<equiv> CHR 0x0D"
abbreviation BAR :: char where "BAR \<equiv> CHR ''|''"
abbreviation HAT :: char where "HAT \<equiv> CHR ''^''"
abbreviation TILDE :: char where "TILDE \<equiv> CHR ''~''"
abbreviation USCORE :: char where "USCORE \<equiv> CHR ''_''"
abbreviation DOT :: char where "DOT \<equiv> CHR ''.''"

text \<open>The literal \<^verbatim>\<open>'^~\&'\<close> of the source (caret, tilde, backslash, ampersand).\<close>

definition encoding_characters :: string where
  "encoding_characters = [CHR ''^'', CHR ''~'', CHR 0x5C, CHR ''&'']"

text \<open>The line boundaries of \<open>str.splitlines\<close> below U+0100.\<close>

definition is_linebreak :: "char \<Rightarrow> bool" where
  "is_linebreak c \<longleftrightarrow>
     c = LF \<or> c = CR \<or> c = CHR 0x0B \<or> c = CHR 0x0C \<or> c = CHR 0x1C \<or> c = CHR 0x1D \<or>
     c = CHR 0x1E \<or> c = CHR 0x85"

text \<open>\<open>s.splitlines()\<close>: CR LF is one boundary; no empty last line after a final boundary.\<close>

fun splitlines :: "string \<Rightarrow> string list" where
  "splitlines [] = []"
| "splitlines [c] = (if is_linebreak c then [[]] else [[c]])"
| "splitlines (c # d # cs) =
     (if c = CR \<and> d = LF then [] # splitlines cs
      else if is_linebreak c then [] # splitlines (d # cs)
      else (case splitlines (d # cs) of
              [] \<Rightarrow> [[c]]
            | l # ls \<Rightarrow> (c # l) # ls))"

text \<open>\<open>s.split(sep)\<close> for a one-character separator: never an empty list.\<close>

fun py_split :: "char \<Rightarrow> string \<Rightarrow> string list" where
  "py_split sep [] = [[]]"
| "py_split sep (c # cs) =
     (if c = sep then [] # py_split sep cs
      else (case py_split sep cs of
              [] \<Rightarrow> [[c]]
            | l # ls \<Rightarrow> (c # l) # ls))"

text \<open>The characters \<open>str.strip\<close> removes, below U+0100.\<close>

definition is_space :: "char \<Rightarrow> bool" where
  "is_space c \<longleftrightarrow>
     c = CHR 0x09 \<or> c = LF \<or> c = CHR 0x0B \<or> c = CHR 0x0C \<or> c = CR \<or> c = CHR 0x1C \<or>
     c = CHR 0x1D \<or> c = CHR 0x1E \<or> c = CHR 0x1F \<or> c = CHR 0x20 \<or> c = CHR 0x85 \<or>
     c = CHR 0xA0"

definition rstrip :: "string \<Rightarrow> string" where
  "rstrip s = rev (dropWhile is_space (rev s))"

definition strip :: "string \<Rightarrow> string" where
  "strip s = rstrip (dropWhile is_space s)"

text \<open>\<open>str(n)\<close> for an integer: decimal digits, a minus sign for negative numbers.\<close>

definition digit_char :: "nat \<Rightarrow> char" where
  "digit_char d = char_of (48 + d)"

fun str_nat :: "nat \<Rightarrow> string" where
  "str_nat n = (if n < 10 then [digit_char n] else str_nat (n div 10) @ [digit_char (n mod 10)])"

declare str_nat.simps [simp del]

definition str :: "int \<Rightarrow> string" where
  "str i = (if i < 0 then CHR ''-'' # str_nat (nat (- i)) else str_nat (nat i))"

text \<open>
  \<open>int(s)\<close> for a string: surrounding whitespace is stripped, one sign is allowed, single
  underscores may separate digits; anything else raises \<open>ValueError\<close>. The whitespace of
  \<open>int\<close> is narrower than that of \<open>str.strip\<close>: tab, newline, vertical tab, form feed,
  carriage return and space, and of the characters from U+0080 on those that are spaces
  (below U+0100: U+0085 and U+00A0). The separators U+001C to U+001F are not stripped.
\<close>

definition is_int_space :: "char \<Rightarrow> bool" where
  "is_int_space c \<longleftrightarrow>
     c = CHR 0x09 \<or> c = LF \<or> c = CHR 0x0B \<or> c = CHR 0x0C \<or> c = CR \<or> c = CHR 0x20 \<or>
     c = CHR 0x85 \<or> c = CHR 0xA0"

definition int_strip :: "string \<Rightarrow> string" where
  "int_strip s = rev (dropWhile is_int_space (rev (dropWhile is_int_space s)))"

definition is_digit :: "char \<Rightarrow> bool" where
  "is_digit c \<longleftrightarrow> 48 \<le> (of_char c :: nat) \<and> (of_char c :: nat) \<le> 57"

definition digit_val :: "char \<Rightarrow> nat" where
  "digit_val c = of_char c - 48"

fun int_digits :: "string \<Rightarrow> nat \<Rightarrow> error + nat" where
  "int_digits [] acc = Inr acc"
| "int_digits [c] acc = (if is_digit c then Inr (10 * acc + digit_val c) else Inl ValueError)"
| "int_digits (c # d # cs) acc =
     (if is_digit c then int_digits (d # cs) (10 * acc + digit_val c)
      else if c = USCORE \<and> is_digit d then int_digits (d # cs) acc
      else Inl ValueError)"

definition py_int :: "string \<Rightarrow> error + int" where
  "py_int s =
     (let t = int_strip s;
          neg = (case t of c # r \<Rightarrow> c = CHR ''-'' | [] \<Rightarrow> False);
          body = (case t of c # r \<Rightarrow> if c = CHR ''-'' \<or> c = CHR ''+'' then r else t | [] \<Rightarrow> [])
      in case body of
           [] \<Rightarrow> Inl ValueError
         | c # r \<Rightarrow>
             if is_digit c
             then (case int_digits body 0 of
                     Inl e \<Rightarrow> Inl e
                   | Inr n \<Rightarrow> Inr (if neg then - int n else int n))
             else Inl ValueError)"

text \<open>\<open>xs[i]\<close> for a non-negative index.\<close>

definition nth_err :: "'a list \<Rightarrow> nat \<Rightarrow> error + 'a" where
  "nth_err xs i = (if i < length xs then Inr (xs ! i) else Inl IndexError)"

text \<open>
  A \<open>dict\<close>: an association list with distinct keys in insertion order. Assigning to an
  existing key keeps the key's position and replaces its value.
\<close>

type_synonym ('k, 'v) pydict = "('k \<times> 'v) list"

fun pydict_set :: "('k, 'v) pydict \<Rightarrow> 'k \<Rightarrow> 'v \<Rightarrow> ('k, 'v) pydict" where
  "pydict_set [] k v = [(k, v)]"
| "pydict_set ((k', v') # d) k v =
     (if k' = k then (k, v) # d else (k', v') # pydict_set d k v)"

fun pydict_update :: "('k, 'v) pydict \<Rightarrow> ('k, 'v) pydict \<Rightarrow> ('k, 'v) pydict" where
  "pydict_update d [] = d"
| "pydict_update d ((k, v) # other) = pydict_update (pydict_set d k v) other"

definition pydict_get :: "('k, 'v) pydict \<Rightarrow> 'k \<Rightarrow> error + 'v" where
  "pydict_get d k = (case map_of d k of None \<Rightarrow> Inl KeyError | Some v \<Rightarrow> Inr v)"

section \<open>The HL7 object\<close>

text \<open>
  The embedded list: a field is a string or a list, so an item is a \<open>Leaf\<close> or a \<open>Node\<close>.
  The JSON form is built from the same two Python types.
\<close>

datatype tree = Leaf string | Node "tree list"

text \<open>
  The attributes of an \<open>HL7\<close> object. \<open>segments\<close> is the attribute \<open>_segments\<close>. The attribute
  \<open>hl7\<close> does not exist before \<open>list_to_hl7\<close> has run. \<open>elist\<close>, \<open>dict\<close> and \<open>json\<close> are
  \<open>None\<close> only inside the constructor, each until the call that assigns it; the model
  starts them empty.
\<close>

record HL7 =
  hl7_message :: string
  segments :: "string list"
  elist :: "tree list"
  dict :: "(string, string) pydict"
  json :: "(string, tree list) pydict"
  hl7 :: "string option"

subsection \<open>\<open>_sort_segments\<close>\<close>

fun sort_segments_loop :: "string list \<Rightarrow> (string \<rightharpoonup> int) \<Rightarrow> string list \<Rightarrow> string list" where
  "sort_segments_loop [] seen sorted_segments = sorted_segments"
| "sort_segments_loop (segment # rest) seen sorted_segments =
     (case seen segment of
        Some n \<Rightarrow>
          sort_segments_loop rest (seen(segment \<mapsto> n + 1))
            (sorted_segments @ [segment @ [USCORE] @ str (n + 1)])
      | None \<Rightarrow>
          sort_segments_loop rest (seen(segment \<mapsto> 0)) (sorted_segments @ [segment]))"

definition sort_segments :: "string list \<Rightarrow> string list" where
  "sort_segments segs = sort_segments_loop segs Map.empty []"

subsection \<open>\<open>hl7_to_list\<close>\<close>

fun fields_loop :: "string list \<Rightarrow> tree list \<Rightarrow> tree list" where
  "fields_loop [] segment_data = segment_data"
| "fields_loop (field # rest) segment_data =
     (if field = encoding_characters
      then fields_loop rest (segment_data @ [Leaf [BAR], Leaf encoding_characters])
      else if TILDE \<in> set field
      then fields_loop rest
             (segment_data @
              [Node (map (\<lambda>repetition. Node (map Leaf (py_split HAT repetition)))
                      (py_split TILDE field))])
      else if length (py_split HAT field) = 1
      then fields_loop rest (segment_data @ map Leaf (py_split HAT field))
      else fields_loop rest (segment_data @ [Node (map Leaf (py_split HAT field))]))"

fun segments_loop ::
  "string list \<Rightarrow> string list \<Rightarrow> tree list \<Rightarrow> error + (string list \<times> tree list)" where
  "segments_loop [] segs data = Inr (segs, data)"
| "segments_loop (segment # rest) segs data =
     (case py_split BAR segment of
        [] \<Rightarrow> Inl IndexError
      | seg_id # field_list \<Rightarrow>
          segments_loop rest (segs @ [seg_id]) (data @ [Node (fields_loop field_list [])]))"

definition hl7_to_list :: "HL7 \<Rightarrow> string option \<Rightarrow> error + HL7" where
  "hl7_to_list self arg =
     (let message = (case arg of
                       None \<Rightarrow> hl7_message self
                     | Some m \<Rightarrow> if m = [] then hl7_message self else m)
      in case segments_loop (splitlines message) (segments self) [] of
           Inl e \<Rightarrow> Inl e
         | Inr (segs, data) \<Rightarrow> Inr (self\<lparr>segments := sort_segments segs, elist := data\<rparr>))"

subsection \<open>\<open>_gen_hl7\<close> and \<open>list_to_hl7\<close>\<close>

definition bind_err :: "error + 'a \<Rightarrow> ('a \<Rightarrow> error + 'b) \<Rightarrow> error + 'b" where
  "bind_err m f = (case m of Inl e \<Rightarrow> Inl e | Inr x \<Rightarrow> f x)"

definition separators :: "string list" where
  "separators = [[], [LF], [BAR], [HAT], [TILDE]]"

text \<open>
  \<open>gen_hl7_loop\<close> is the \<open>for item in elist\<close> loop of \<open>_gen_hl7\<close>, threading the local
  variables \<open>message\<close> and \<open>seg_pointer\<close>; \<open>gen_hl7\<close> is the function itself.
\<close>

function (sequential)
  gen_hl7 :: "string list \<Rightarrow> tree list \<Rightarrow> nat \<Rightarrow> bool \<Rightarrow> error + string" and
  gen_hl7_loop ::
    "string list \<Rightarrow> tree list \<Rightarrow> nat \<Rightarrow> bool \<Rightarrow> string \<Rightarrow> nat \<Rightarrow> error + string"
where
  "gen_hl7 segs items depth next_segment =
     (case gen_hl7_loop segs items depth next_segment [] 0 of
        Inl e \<Rightarrow> Inl e
      | Inr message \<Rightarrow>
          (case nth_err separators (if depth < 3 then depth else depth + 1) of
             Inl e \<Rightarrow> Inl e
           | Inr sep \<Rightarrow> Inr (butlast message @ sep)))"
| "gen_hl7_loop segs [] depth next_segment message seg_pointer = Inr message"
| "gen_hl7_loop segs (Node item # rest) depth next_segment message seg_pointer =
     (if \<not> next_segment
      then (case nth_err segs seg_pointer of
              Inl e \<Rightarrow> Inl e
            | Inr seg \<Rightarrow>
                (case py_split USCORE seg of
                   [] \<Rightarrow> Inl IndexError
                 | segment # _ \<Rightarrow>
                     (case gen_hl7 segs item (depth + 1) True of
                        Inl e \<Rightarrow> Inl e
                      | Inr sub \<Rightarrow>
                          gen_hl7_loop segs rest depth next_segment
                            (message @ segment @ [BAR] @ sub)
                            (if int seg_pointer < int (length segs) - 1
                             then seg_pointer + 1 else seg_pointer))))
      else (case gen_hl7 segs item (depth + 1) True of
              Inl e \<Rightarrow> Inl e
            | Inr sub \<Rightarrow>
                gen_hl7_loop segs rest depth next_segment (message @ sub) seg_pointer))"
| "gen_hl7_loop segs (Leaf item # rest) depth next_segment message seg_pointer =
     (if item = [BAR]
      then gen_hl7_loop segs rest depth next_segment message seg_pointer
      else (case nth_err separators (if depth < 3 then depth + 1 else depth) of
              Inl e \<Rightarrow> Inl e
            | Inr sep \<Rightarrow>
                gen_hl7_loop segs rest depth next_segment (message @ item @ sep) seg_pointer))"
  by pat_completeness auto
termination
  by (relation "measure (\<lambda>x. case x of
         Inl (segs, items, depth, next_segment) \<Rightarrow> 2 * size_list size items + 1
       | Inr (segs, items, depth, next_segment, message, seg_pointer) \<Rightarrow>
           2 * size_list size items)") auto

definition list_to_hl7 :: "HL7 \<Rightarrow> error + HL7" where
  "list_to_hl7 self =
     bind_err (gen_hl7 (segments self) (elist self) 0 False)
       (\<lambda>message. Inr (self\<lparr>hl7 := Some message\<rparr>))"

subsection \<open>\<open>_gen_dict\<close> and \<open>list_to_dict\<close>\<close>

text \<open>\<open>gen_dict_loop\<close> is the \<open>enumerate\<close> loop, threading \<open>index\<close> and \<open>hl7_dictionary\<close>.\<close>

fun
  gen_dict :: "string list \<Rightarrow> tree \<Rightarrow> string \<Rightarrow> error + (string, string) pydict" and
  gen_dict_loop ::
    "string list \<Rightarrow> tree list \<Rightarrow> nat \<Rightarrow> string \<Rightarrow> (string, string) pydict \<Rightarrow>
     error + (string, string) pydict"
where
  "gen_dict segs (Node data) path = gen_dict_loop segs data 0 path []"
| "gen_dict segs (Leaf data) path = Inr [(path, data)]"
| "gen_dict_loop segs [] index path hl7_dictionary = Inr hl7_dictionary"
| "gen_dict_loop segs (item # rest) index path hl7_dictionary =
     (case (if path \<noteq> [] then Inr (path @ [DOT] @ str (int index + 1))
            else nth_err segs index) of
        Inl e \<Rightarrow> Inl e
      | Inr new_path \<Rightarrow>
          (case gen_dict segs item new_path of
             Inl e \<Rightarrow> Inl e
           | Inr d \<Rightarrow>
               gen_dict_loop segs rest (index + 1) path (pydict_update hl7_dictionary d)))"

definition list_to_dict :: "HL7 \<Rightarrow> error + HL7" where
  "list_to_dict self =
     bind_err (gen_dict (segments self) (Node (elist self)) [])
       (\<lambda>d. Inr (self\<lparr>dict := d\<rparr>))"

subsection \<open>\<open>_gen_json\<close>, \<open>list_to_json\<close> and \<open>json_to_list\<close>\<close>

fun gen_json :: "tree \<Rightarrow> tree" where
  "gen_json (Node data) = Node (Leaf [] # map gen_json data)"
| "gen_json (Leaf data) = Leaf data"

text \<open>\<open>[].extend(x)\<close>: the items of a list, the characters of a string.\<close>

fun extend_items :: "tree \<Rightarrow> tree list" where
  "extend_items (Node xs) = xs"
| "extend_items (Leaf s) = map (\<lambda>c. Leaf [c]) s"

fun list_to_json_loop ::
  "string list \<Rightarrow> tree list \<Rightarrow> nat \<Rightarrow> (string, tree list) pydict \<Rightarrow>
   error + (string, tree list) pydict" where
  "list_to_json_loop segs [] segment_pointer dictionary = Inr dictionary"
| "list_to_json_loop segs (item # rest) segment_pointer dictionary =
     (case nth_err segs segment_pointer of
        Inl e \<Rightarrow> Inl e
      | Inr segment \<Rightarrow>
          list_to_json_loop segs rest (segment_pointer + 1)
            (pydict_set dictionary segment (extend_items (gen_json item))))"

definition list_to_json :: "HL7 \<Rightarrow> error + HL7" where
  "list_to_json self =
     bind_err (list_to_json_loop (segments self) (elist self) 0 [])
       (\<lambda>d. Inr (self\<lparr>json := d\<rparr>))"

text \<open>The recursive lambda of \<open>json_to_list\<close>; \<open>item[1:]\<close> is \<open>tl\<close>.\<close>

function (sequential) remove_fillers :: "tree list \<Rightarrow> tree list" where
  "remove_fillers [] = []"
| "remove_fillers (Leaf item # rest) = Leaf item # remove_fillers rest"
| "remove_fillers (Node item # rest) = Node (remove_fillers (tl item)) # remove_fillers rest"
  by pat_completeness auto
termination
proof (relation "measure (size_list size)")
  fix item :: "tree list" and rest :: "tree list"
  have "size_list size (tl item) \<le> size_list size item"
    by (cases item) simp_all
  then show "(tl item, Node item # rest) \<in> measure (size_list size)"
    by simp
qed simp_all

text \<open>
  \<open>json_to_list\<close> returns the rebuilt list and assigns no attribute: the object is handed
  back as it was.
\<close>

definition json_to_list :: "HL7 \<Rightarrow> tree list \<times> HL7" where
  "json_to_list self =
     (remove_fillers (map (\<lambda>(key, v). Node v) (json self)), self)"

subsection \<open>\<open>dict_to_list\<close>\<close>

text \<open>
  The local variables of \<open>dict_to_list\<close>; \<open>d_segments\<close> is the local dictionary
  \<open>segments\<close> that maps a segment identifier to its accumulated list.
\<close>

record d2l =
  d_segments :: "(string, tree list) pydict"
  subfield_list :: "tree list"
  repeats :: "tree list"
  repeats_list :: "tree list"
  prev_segment :: string
  prev_depth :: nat
  prev_subfield_position :: int
  prev_repeat_position :: int
  count :: nat

definition d2l_initial :: d2l where
  "d2l_initial =
     \<lparr>d_segments = [], subfield_list = [], repeats = [], repeats_list = [],
      prev_segment = [], prev_depth = 1, prev_subfield_position = 1,
      prev_repeat_position = 1, count = 1\<rparr>"

text \<open>\<open>segments[k].append(x)\<close>: \<open>KeyError\<close> when \<open>k\<close> is not a key.\<close>

definition seg_append :: "d2l \<Rightarrow> string \<Rightarrow> tree \<Rightarrow> error + d2l" where
  "seg_append st k x =
     bind_err (pydict_get (d_segments st) k)
       (\<lambda>acc. Inr (st\<lparr>d_segments := pydict_set (d_segments st) k (acc @ [x])\<rparr>))"

text \<open>\<open>repeats_list.append(repeats) if repeats else None\<close>.\<close>

definition close_repeats :: "d2l \<Rightarrow> d2l" where
  "close_repeats st =
     (if repeats st \<noteq> [] then st\<lparr>repeats_list := repeats_list st @ [Node (repeats st)]\<rparr>
      else st)"

text \<open>
  The block \<open>if repeats_list: ...\<close> followed by the block \<open>if subfield_list: ...\<close>, which
  the source has twice: in the branch for a drop to depth 1 and at the last entry.
\<close>

definition flush_repeats_list :: "string \<Rightarrow> d2l \<Rightarrow> error + d2l" where
  "flush_repeats_list segment_id st =
     (if repeats_list st \<noteq> []
      then bind_err
             (seg_append (close_repeats st) segment_id (Node (repeats_list (close_repeats st))))
             (\<lambda>st'. Inr (st'\<lparr>repeats_list := [], repeats := [], prev_repeat_position := 1\<rparr>))
      else Inr st)"

definition flush_subfield_list :: "string \<Rightarrow> d2l \<Rightarrow> error + d2l" where
  "flush_subfield_list segment_id st =
     (if subfield_list st \<noteq> []
      then bind_err
             (if segment_id \<noteq> prev_segment st
              then seg_append st (prev_segment st) (Node (subfield_list st))
              else seg_append st segment_id (Node (subfield_list st)))
             (\<lambda>st'. Inr (st'\<lparr>subfield_list := [], prev_subfield_position := 1\<rparr>))
      else Inr st)"

text \<open>\<open>int(key.split('.')[i])\<close>.\<close>

definition key_position :: "string \<Rightarrow> nat \<Rightarrow> error + int" where
  "key_position key i = bind_err (nth_err (py_split DOT key) i) py_int"

text \<open>The branch \<open>current_depth == prev_depth\<close>.\<close>

definition same_depth :: "string \<Rightarrow> string \<Rightarrow> string \<Rightarrow> nat \<Rightarrow> d2l \<Rightarrow> error + d2l" where
  "same_depth key val segment_id current_depth st =
     (if current_depth = 1 then seg_append st segment_id (Leaf val)
      else if current_depth = 2
      then bind_err (key_position key 1)
             (\<lambda>pos. if prev_subfield_position st < pos
                     then bind_err (seg_append st segment_id (Node (subfield_list st)))
                            (\<lambda>st'. Inr (st'\<lparr>subfield_list := [Leaf val],
                                              prev_subfield_position := pos\<rparr>))
                     else Inr (st\<lparr>subfield_list := subfield_list st @ [Leaf val]\<rparr>))
      else if current_depth = 3
      then bind_err (key_position key 2)
             (\<lambda>pos. if prev_repeat_position st < pos
                     then Inr (st\<lparr>repeats_list := repeats_list st @ [Node (repeats st)],
                                  repeats := [Leaf val],
                                  prev_repeat_position := pos\<rparr>)
                     else Inr (st\<lparr>repeats := repeats st @ [Leaf val]\<rparr>))
      else Inr st)"

text \<open>The branch \<open>current_depth > prev_depth\<close>.\<close>

definition deeper :: "string \<Rightarrow> string \<Rightarrow> string \<Rightarrow> nat \<Rightarrow> d2l \<Rightarrow> error + d2l" where
  "deeper key val segment_id current_depth st =
     (if current_depth = 2
      then bind_err (key_position key 1)
             (\<lambda>pos. Inr (st\<lparr>subfield_list := subfield_list st @ [Leaf val],
                              prev_subfield_position := pos\<rparr>))
      else if current_depth = 3
      then bind_err
             (if subfield_list st \<noteq> []
              then bind_err (seg_append st segment_id (Node (subfield_list st)))
                     (\<lambda>st'. Inr (st'\<lparr>subfield_list := []\<rparr>))
              else Inr st)
             (\<lambda>st'. bind_err (key_position key 2)
                       (\<lambda>pos. Inr (st'\<lparr>repeats := repeats st' @ [Leaf val],
                                         prev_repeat_position := pos\<rparr>)))
      else Inr st)"

text \<open>The branch \<open>current_depth < prev_depth\<close>.\<close>

definition shallower :: "string \<Rightarrow> string \<Rightarrow> string \<Rightarrow> nat \<Rightarrow> d2l \<Rightarrow> error + d2l" where
  "shallower key val segment_id current_depth st =
     (if current_depth = 1
      then bind_err (flush_repeats_list segment_id st)
             (\<lambda>st1. bind_err (flush_subfield_list segment_id st1)
                       (\<lambda>st2. seg_append st2 segment_id (Leaf val)))
      else if current_depth = 2
      then bind_err
             (seg_append (close_repeats st) segment_id (Node (repeats_list (close_repeats st))))
             (\<lambda>st1. bind_err (key_position key 1)
                       (\<lambda>pos. Inr (st1\<lparr>subfield_list := subfield_list st1 @ [Leaf val],
                                         prev_subfield_position := pos,
                                         repeats_list := [], repeats := [],
                                         prev_repeat_position := 1\<rparr>)))
      else Inr st)"

text \<open>One iteration of \<open>for key, value in self.dict.items()\<close>.\<close>

definition dict_to_list_step :: "nat \<Rightarrow> string \<times> string \<Rightarrow> d2l \<Rightarrow> error + d2l" where
  "dict_to_list_step dict_size entry st0 =
     (let key = fst entry;
          val = snd entry;
          current_depth = length (py_split DOT key) - 1
      in bind_err (nth_err (py_split DOT key) 0)
           (\<lambda>segment_id.
              let st = (if map_of (d_segments st0) segment_id = None
                        then st0\<lparr>d_segments := pydict_set (d_segments st0) segment_id []\<rparr>
                        else st0)
              in bind_err
                   (if current_depth = prev_depth st
                    then same_depth key val segment_id current_depth st
                    else if current_depth > prev_depth st
                    then deeper key val segment_id current_depth st
                    else shallower key val segment_id current_depth st)
                   (\<lambda>st1. bind_err
                             (if count st1 = dict_size
                              then bind_err (flush_repeats_list segment_id st1)
                                     (flush_subfield_list segment_id)
                              else Inr st1)
                             (\<lambda>st2. Inr (st2\<lparr>count := count st2 + 1,
                                               prev_segment := segment_id,
                                               prev_depth := current_depth\<rparr>)))))"

fun dict_to_list_loop :: "nat \<Rightarrow> (string, string) pydict \<Rightarrow> d2l \<Rightarrow> error + d2l" where
  "dict_to_list_loop dict_size [] st = Inr st"
| "dict_to_list_loop dict_size (entry # rest) st =
     (case dict_to_list_step dict_size entry st of
        Inl e \<Rightarrow> Inl e
      | Inr st' \<Rightarrow> dict_to_list_loop dict_size rest st')"

definition dict_to_list :: "HL7 \<Rightarrow> error + HL7" where
  "dict_to_list self =
     bind_err (dict_to_list_loop (length (dict self)) (dict self) d2l_initial)
       (\<lambda>st. Inr (self\<lparr>elist := map (\<lambda>(key, v). Node v) (d_segments st)\<rparr>))"

subsection \<open>The constructor\<close>

definition init :: "string \<Rightarrow> error + HL7" where
  "init message =
     bind_err
       (hl7_to_list
          \<lparr>hl7_message = strip message, segments = [], elist = [], dict = [], json = [],
           hl7 = None\<rparr>
          (Some message))
       (\<lambda>self. bind_err (list_to_dict self) list_to_json)"

section \<open>Vocabulary of the specification\<close>

text \<open>
  The naming policy in the specification's words: an identifier with no earlier occurrence
  is unchanged, and the one with \<open>k \<ge> 1\<close> earlier occurrences becomes \<open><id>_k\<close>.
\<close>

definition policy_name :: "string list \<Rightarrow> string \<Rightarrow> string" where
  "policy_name earlier x =
     (if count_list earlier x = 0 then x
      else x @ [USCORE] @ str (int (count_list earlier x)))"

text \<open>The number of leaves of a tree.\<close>

fun leaves :: "tree \<Rightarrow> nat" where
  "leaves (Leaf s) = 1"
| "leaves (Node ts) = sum_list (map leaves ts)"

text \<open>The message of the end-to-end scenario; it ends with a line break.\<close>

definition scenario_message :: string where
  "scenario_message =
     ''MSH|'' @ encoding_characters @ ''|App|Fac'' @ [LF] @ ''EVN|A01|20110613083617'' @ [LF]"

text \<open>Three lines whose third identifier has the form the disambiguator generates.\<close>

definition clash_message :: string where
  "clash_message = ''PID|a'' @ [LF] @ ''PID|b'' @ [LF] @ ''PID_1|c''"

text \<open>The identifier and the fields of one line, as \<open>hl7_to_list\<close> splits it.\<close>

definition segment_id :: "string \<Rightarrow> string" where
  "segment_id line = (case py_split BAR line of [] \<Rightarrow> [] | x # xs \<Rightarrow> x)"

definition segment_fields :: "string \<Rightarrow> string list" where
  "segment_fields line = (case py_split BAR line of [] \<Rightarrow> [] | x # xs \<Rightarrow> xs)"

text \<open>
  The flat mapping in the specification's words: a depth-first traversal that emits the
  current path at each leaf and appends the 1-based index at each node.
\<close>

fun tree_paths :: "tree \<Rightarrow> string \<Rightarrow> (string \<times> string) list"
  and tree_list_paths :: "tree list \<Rightarrow> nat \<Rightarrow> string \<Rightarrow> (string \<times> string) list" where
  "tree_paths (Leaf s) path = [(path, s)]"
| "tree_paths (Node ts) path = tree_list_paths ts 0 path"
| "tree_list_paths [] index path = []"
| "tree_list_paths (t # ts) index path =
     tree_paths t (path @ [DOT] @ str (int index + 1)) @ tree_list_paths ts (index + 1) path"

text \<open>\<open>under p k\<close>: the key \<open>k\<close> is the path \<open>p\<close> or continues it with a dot.\<close>

definition under :: "string \<Rightarrow> string \<Rightarrow> bool" where
  "under p k \<longleftrightarrow>
     take (length p) k = p \<and> (drop (length p) k = [] \<or> hd (drop (length p) k) = DOT)"

text \<open>
  A plain identifier: not empty, and free of the two characters the code itself adds to
  identifiers (the underscore of the disambiguator, the dot of the path keys).
\<close>

definition plain_id :: "string \<Rightarrow> bool" where
  "plain_id x \<longleftrightarrow> x \<noteq> [] \<and> USCORE \<notin> set x \<and> DOT \<notin> set x"

text \<open>\<open>sep.join(xs)\<close>.\<close>

fun join :: "string \<Rightarrow> string list \<Rightarrow> string" where
  "join sep [] = []"
| "join sep [x] = x"
| "join sep (x # y # ys) = x @ sep @ join sep (y # ys)"

text \<open>
  The text the serializer emits for one segment, without the line break: the table entry
  cut at its first underscore, a field delimiter, the fields joined by field delimiters.
\<close>

definition segment_text :: "string \<Rightarrow> string \<Rightarrow> string" where
  "segment_text seg line =
     takeWhile (\<lambda>c. c \<noteq> USCORE) seg @ [BAR] @ join [BAR] (segment_fields line)"

text \<open>Messages that break the mapping-to-tree reconstruction.\<close>

definition two_repeating_fields :: string where
  "two_repeating_fields = ''PID|a~b|c~d''"

definition repetition_before_boundary :: string where
  "repetition_before_boundary = ''PID|a~b'' @ [LF] @ ''PV1|c''"

text \<open>A message with a component field, a repeated field and single-leaf fields.\<close>

definition mixed_message :: string where
  "mixed_message = ''PID|a^b|c~d^e|f'' @ [LF] @ ''PID|g''"

text \<open>
  A newline message: its line breaks are newline characters, and every line is a
  non-empty segment identifier without an underscore, followed by at least one field
  delimiter. So it has no carriage return, no blank line and no line without a field.
\<close>

definition newline_message :: "string \<Rightarrow> bool" where
  "newline_message m \<longleftrightarrow>
     (\<forall>c \<in> set m. is_linebreak c \<longrightarrow> c = LF) \<and>
     (\<forall>line \<in> set (splitlines m).
        BAR \<in> set line \<and> segment_id line \<noteq> [] \<and> USCORE \<notin> set (segment_id line))"

text \<open>A message whose only line holds the encoding characters as its only field.\<close>

definition encoding_only_message :: string where
  "encoding_only_message = ''MSH|'' @ encoding_characters"

text \<open>What \<open>list_to_hl7\<close> stores for a freshly constructed object.\<close>

definition reserialized :: "string \<Rightarrow> error + string option" where
  "reserialized m =
     bind_err (init m) (\<lambda>self. bind_err (list_to_hl7 self) (\<lambda>self'. Inr (hl7 self')))"

text \<open>
  Messages the serializer does not reproduce: segments ended by carriage returns, a line
  without a field delimiter, and a blank last line.
\<close>

definition carriage_return_message :: string where
  "carriage_return_message = ''MSH|a'' @ [CR] @ ''EVN|b'' @ [CR]"

definition bare_line_message :: string where
  "bare_line_message = ''MSH|a'' @ [LF] @ ''ZZZ''"

definition blank_line_message :: string where
  "blank_line_message = ''MSH|a'' @ [LF, LF]"

section \<open>The segment disambiguator\<close>

lemma map_upt_Suc_shift:
  "map f [0..<Suc n] = f 0 # map (\<lambda>i. f (Suc i)) [0..<n]"
  by (simp add: map_upt_Suc del: upt_Suc)

lemma sort_segments_loop_eq:
  assumes "\<And>s. seen s = (if count_list pre s = 0 then None else Some (int (count_list pre s) - 1))"
  shows "sort_segments_loop rest seen acc =
         acc @ map (\<lambda>i. policy_name (pre @ take i rest) (rest ! i)) [0..<length rest]"
  using assms
proof (induction rest arbitrary: seen pre acc)
  case Nil
  then show ?case by simp
next
  case (Cons x rest)
  let ?n = "count_list pre x"
  let ?seen' = "seen(x \<mapsto> int ?n)"
  have inv: "?seen' s = (if count_list (pre @ [x]) s = 0 then None
                          else Some (int (count_list (pre @ [x]) s) - 1))" for s
    by (simp add: Cons.prems)
  have step: "sort_segments_loop (x # rest) seen acc =
              sort_segments_loop rest ?seen' (acc @ [policy_name pre x])"
    by (simp add: Cons.prems policy_name_def)
  have "sort_segments_loop rest ?seen' (acc @ [policy_name pre x]) =
        (acc @ [policy_name pre x]) @
        map (\<lambda>i. policy_name ((pre @ [x]) @ take i rest) (rest ! i)) [0..<length rest]"
    by (rule Cons.IH) (rule inv)
  also have "\<dots> = acc @ map (\<lambda>i. policy_name (pre @ take i (x # rest)) ((x # rest) ! i))
                       [0..<length (x # rest)]"
    by (simp add: map_upt_Suc_shift del: upt_Suc)
  finally show ?case using step by simp
qed

lemma sort_segments_eq:
  "sort_segments xs = map (\<lambda>i. policy_name (take i xs) (xs ! i)) [0..<length xs]"
  using sort_segments_loop_eq [of Map.empty "[]" xs "[]"]
  by (simp add: sort_segments_def)

lemma of_char_digit_char: "d < 10 \<Longrightarrow> (of_char (digit_char d) :: nat) = 48 + d"
  by (simp add: digit_char_def)

lemma is_digit_digit_char: "d < 10 \<Longrightarrow> is_digit (digit_char d)"
  by (simp add: is_digit_def of_char_digit_char)

lemma digit_val_digit_char: "d < 10 \<Longrightarrow> digit_val (digit_char d) = d"
  by (simp add: digit_val_def of_char_digit_char)

lemma str_nat_digits: "c \<in> set (str_nat n) \<Longrightarrow> is_digit c"
proof (induction n arbitrary: c rule: str_nat.induct)
  case (1 n)
  show ?case
  proof (cases "n < 10")
    case True
    with "1.prems" show ?thesis
      by (simp add: str_nat.simps [of n] is_digit_digit_char)
  next
    case False
    with "1.prems" have "c \<in> set (str_nat (n div 10)) \<or> c = digit_char (n mod 10)"
      by (auto simp: str_nat.simps [of n])
    then show ?thesis
      using "1.IH" False by (auto simp: is_digit_digit_char)
  qed
qed

lemma str_nat_value: "foldl (\<lambda>a c. 10 * a + digit_val c) 0 (str_nat n) = n"
proof (induction n rule: str_nat.induct)
  case (1 n)
  show ?case
  proof (cases "n < 10")
    case True
    then show ?thesis
      by (simp add: str_nat.simps [of n] digit_val_digit_char)
  next
    case False
    then show ?thesis
      using "1.IH" by (simp add: str_nat.simps [of n] digit_val_digit_char)
  qed
qed

lemma str_nat_inj: "str_nat m = str_nat n \<Longrightarrow> m = n"
  by (metis str_nat_value)

lemma str_int_nat: "str (int k) = str_nat k"
  by (simp add: str_def)

lemma is_digit_not_uscore: "is_digit c \<Longrightarrow> c \<noteq> USCORE"
  by (auto simp: is_digit_def)

lemma is_digit_not_dot: "is_digit c \<Longrightarrow> c \<noteq> DOT"
  by (auto simp: is_digit_def)

lemma takeWhile_policy_name:
  assumes "USCORE \<notin> set x"
  shows "takeWhile (\<lambda>c. c \<noteq> USCORE) (policy_name earlier x) = x"
  using assms by (simp add: policy_name_def takeWhile_append)

lemma policy_name_eq:
  assumes "USCORE \<notin> set x" "USCORE \<notin> set y" "policy_name e1 x = policy_name e2 y"
  shows "x = y \<and> count_list e1 x = count_list e2 y"
proof -
  have xy: "x = y"
    using assms takeWhile_policy_name by metis
  have "count_list e1 x = count_list e2 x"
  proof (cases "count_list e1 x = 0"; cases "count_list e2 x = 0")
    assume a: "count_list e1 x \<noteq> 0" "count_list e2 x \<noteq> 0"
    with assms(3) xy have "str_nat (count_list e1 x) = str_nat (count_list e2 x)"
      by (simp add: policy_name_def str_int_nat)
    then show ?thesis by (rule str_nat_inj)
  next
    assume a: "count_list e1 x = 0" "count_list e2 x \<noteq> 0"
    with assms(3) xy have "x = x @ [USCORE] @ str (int (count_list e2 x))"
      by (simp add: policy_name_def)
    then show ?thesis by simp
  next
    assume a: "count_list e1 x \<noteq> 0" "count_list e2 x = 0"
    with assms(3) xy have "x @ [USCORE] @ str (int (count_list e1 x)) = x"
      by (simp add: policy_name_def)
    then show ?thesis by simp
  qed simp
  with xy show ?thesis by simp
qed

lemma count_list_take_less:
  assumes "i < j" "j < length xs" "xs ! i = xs ! j"
  shows "count_list (take i xs) (xs ! j) < count_list (take j xs) (xs ! j)"
proof -
  have "take j xs = take i xs @ xs ! i # take (j - Suc i) (drop (Suc i) xs)"
  proof -
    have "take j xs = take i (take j xs) @ drop i (take j xs)"
      by (rule append_take_drop_id [symmetric])
    also have "take i (take j xs) = take i xs" using assms(1) by (simp add: min_def)
    also have "drop i (take j xs) = take (j - i) (drop i xs)" by (simp add: drop_take)
    also have "drop i xs = xs ! i # drop (Suc i) xs"
      using assms(1,2) by (simp add: Cons_nth_drop_Suc)
    also have "take (j - i) (xs ! i # drop (Suc i) xs) = xs ! i # take (j - Suc i) (drop (Suc i) xs)"
    proof -
      have "j - i = Suc (j - Suc i)" using assms(1) by simp
      then show ?thesis by (simp only: take_Suc_Cons)
    qed
    finally show ?thesis .
  qed
  then show ?thesis using assms by simp
qed

lemma sort_segments_distinct:
  assumes "\<And>x. x \<in> set xs \<Longrightarrow> USCORE \<notin> set x"
  shows "distinct (sort_segments xs)"
proof -
  let ?f = "\<lambda>i. policy_name (take i xs) (xs ! i)"
  have "inj_on ?f {0..<length xs}"
  proof (rule inj_onI)
    fix i j assume ij: "i \<in> {0..<length xs}" "j \<in> {0..<length xs}" "?f i = ?f j"
    then have u: "USCORE \<notin> set (xs ! i)" "USCORE \<notin> set (xs ! j)"
      using assms by simp_all
    from policy_name_eq [OF u ij(3)]
    have e: "xs ! i = xs ! j" "count_list (take i xs) (xs ! i) = count_list (take j xs) (xs ! j)"
      by blast+
    show "i = j"
    proof (rule ccontr)
      assume "i \<noteq> j"
      then consider "i < j" | "j < i" by linarith
      then show False
      proof cases
        case 1
        from count_list_take_less [OF 1 _ e(1)] ij e show False by simp
      next
        case 2
        from count_list_take_less [OF 2 _ e(1) [symmetric]] ij e show False by simp
      qed
    qed
  qed
  then show ?thesis
    by (simp add: sort_segments_eq distinct_map)
qed

text \<open>
  C8. For every sequence of raw identifiers the disambiguator computes the policy: the
  entry at position \<open>i\<close> is the identifier itself when it has not occurred before, and
  \<open><id>_k\<close> when it has occurred \<open>k\<close> times before. MSH, PID, PID, OBX becomes MSH, PID,
  PID_1, OBX, and the empty sequence gives the empty table.
\<close>

theorem sort_segments_policy:
  "sort_segments xs = map (\<lambda>i. policy_name (take i xs) (xs ! i)) [0..<length xs] \<and>
   sort_segments [''MSH'', ''PID'', ''PID'', ''OBX''] = [''MSH'', ''PID'', ''PID_1'', ''OBX''] \<and>
   sort_segments [] = []"
proof (intro conjI)
  show "sort_segments xs = map (\<lambda>i. policy_name (take i xs) (xs ! i)) [0..<length xs]"
    by (rule sort_segments_eq)
  show "sort_segments [''MSH'', ''PID'', ''PID'', ''OBX''] = [''MSH'', ''PID'', ''PID_1'', ''OBX'']"
    by code_simp
  show "sort_segments [] = []"
    by (simp add: sort_segments_def)
qed

text \<open>
  C9, as stated, fails: a raw identifier may already have the form of a generated name.
  PID, PID, PID_1 becomes PID, PID_1, PID_1.
\<close>

theorem sort_segments_not_distinct:
  "\<not> distinct (sort_segments [''PID'', ''PID'', ''PID_1''])"
  by code_simp

text \<open>
  C9, amended. When no raw identifier contains an underscore, the entries of the table
  are pairwise distinct.
\<close>

theorem sort_segments_distinct_plain:
  "(\<forall>x \<in> set xs. USCORE \<notin> set x) \<Longrightarrow> distinct (sort_segments xs)"
  by (rule sort_segments_distinct) simp

theorem sort_segments_distinct_plain_witness:
  "list_all (\<lambda>x. USCORE \<notin> set x) [''MSH'', ''PID'', ''PID'', ''PID''] \<and>
   distinct (sort_segments [''MSH'', ''PID'', ''PID'', ''PID''])"
  using sort_segments_distinct_plain [of "[''MSH'', ''PID'', ''PID'', ''PID'']"] by simp

section \<open>Auxiliary facts about the constructor, the views and the serializer\<close>

lemma py_split_not_Nil [simp]: "py_split sep s \<noteq> []"
  by (induction s) (auto split: list.splits)

lemma py_split_Cons: "py_split BAR line = segment_id line # segment_fields line"
  by (cases "py_split BAR line") (simp_all add: segment_id_def segment_fields_def)

lemma segments_loop_eq:
  "segments_loop ls segs data =
   Inr (segs @ map segment_id ls,
        data @ map (\<lambda>l. Node (fields_loop (segment_fields l) [])) ls)"
  by (induction ls arbitrary: segs data) (simp_all add: py_split_Cons)

lemma length_sort_segments [simp]: "length (sort_segments xs) = length xs"
  by (simp add: sort_segments_eq)

lemma bind_err_Inr_iff:
  "bind_err m f = Inr y \<longleftrightarrow> (\<exists>x. m = Inr x \<and> f x = Inr y)"
  by (cases m) (simp_all add: bind_err_def)

lemma init_Inr:
  assumes "init message = Inr self"
  shows "segments self = sort_segments (map segment_id (splitlines message))"
    and "elist self = map (\<lambda>l. Node (fields_loop (segment_fields l) [])) (splitlines message)"
    and "gen_dict (segments self) (Node (elist self)) [] = Inr (dict self)"
    and "list_to_json_loop (segments self) (elist self) 0 [] = Inr (json self)"
    and "hl7_message self = strip message"
    and "hl7 self = None"
proof -
  let ?s1 = "\<lparr>hl7_message = strip message,
              segments = sort_segments (map segment_id (splitlines message)),
              elist = map (\<lambda>l. Node (fields_loop (segment_fields l) [])) (splitlines message),
              dict = [], json = [], hl7 = None\<rparr>"
  have h: "hl7_to_list
             \<lparr>hl7_message = strip message, segments = [], elist = [], dict = [], json = [],
              hl7 = None\<rparr> (Some message) = Inr ?s1"
  proof (cases "message = []")
    case True
    then show ?thesis
      by (simp add: hl7_to_list_def segments_loop_eq strip_def rstrip_def)
  next
    case False
    then show ?thesis
      by (simp add: hl7_to_list_def segments_loop_eq)
  qed
  from assms h obtain s2 where
    s2: "list_to_dict ?s1 = Inr s2" and s3: "list_to_json s2 = Inr self"
    by (auto simp: init_def bind_err_Inr_iff)
  from s2 obtain d where d: "gen_dict (segments ?s1) (Node (elist ?s1)) [] = Inr d"
    and s2_eq: "s2 = ?s1\<lparr>dict := d\<rparr>"
    by (auto simp: list_to_dict_def bind_err_Inr_iff)
  from s3 obtain j where j: "list_to_json_loop (segments s2) (elist s2) 0 [] = Inr j"
    and self_eq: "self = s2\<lparr>json := j\<rparr>"
    by (auto simp: list_to_json_def bind_err_Inr_iff)
  show "segments self = sort_segments (map segment_id (splitlines message))"
    by (simp add: self_eq s2_eq)
  show "elist self = map (\<lambda>l. Node (fields_loop (segment_fields l) [])) (splitlines message)"
    by (simp add: self_eq s2_eq)
  show "gen_dict (segments self) (Node (elist self)) [] = Inr (dict self)"
    using d by (simp add: self_eq s2_eq)
  show "list_to_json_loop (segments self) (elist self) 0 [] = Inr (json self)"
    using j by (simp add: self_eq s2_eq)
  show "hl7_message self = strip message"
    by (simp add: self_eq s2_eq)
  show "hl7 self = None"
    by (simp add: self_eq s2_eq)
qed

lemma remove_fillers_Cons: "remove_fillers (x # xs) = remove_fillers [x] @ remove_fillers xs"
  by (cases x) simp_all

lemma remove_fillers_map_gen_json:
  "(\<And>t. t \<in> set ts \<Longrightarrow> remove_fillers [gen_json t] = [t]) \<Longrightarrow>
   remove_fillers (map gen_json ts) = ts"
proof (induction ts)
  case Nil
  then show ?case by simp
next
  case (Cons t ts)
  have "remove_fillers (map gen_json (t # ts)) =
        remove_fillers [gen_json t] @ remove_fillers (map gen_json ts)"
    using remove_fillers_Cons [of "gen_json t" "map gen_json ts"] by simp
  with Cons show ?case by simp
qed

lemma remove_fillers_gen_json: "remove_fillers [gen_json t] = [t]"
proof (induction t)
  case (Leaf s)
  then show ?case by simp
next
  case (Node ts)
  then show ?case by (simp add: remove_fillers_map_gen_json)
qed

lemma pydict_set_fresh: "k \<notin> fst ` set d \<Longrightarrow> pydict_set d k v = d @ [(k, v)]"
  by (induction d) auto

lemma list_to_json_loop_eq:
  assumes "i + length items \<le> length segs" "distinct (map fst d @ drop i segs)"
  shows "list_to_json_loop segs items i d =
         Inr (d @ zip (drop i segs) (map (\<lambda>item. extend_items (gen_json item)) items))"
  using assms
proof (induction items arbitrary: i d)
  case Nil
  then show ?case by simp
next
  case (Cons item items)
  then have i: "i < length segs" by simp
  then have dr: "drop i segs = segs ! i # drop (Suc i) segs"
    by (simp add: Cons_nth_drop_Suc)
  with Cons.prems have fresh: "segs ! i \<notin> fst ` set d" by auto
  let ?d' = "d @ [(segs ! i, extend_items (gen_json item))]"
  have "list_to_json_loop segs (item # items) i d = list_to_json_loop segs items (Suc i) ?d'"
    using i fresh by (simp add: nth_err_def pydict_set_fresh)
  also have "\<dots> = Inr (?d' @ zip (drop (Suc i) segs)
                           (map (\<lambda>item. extend_items (gen_json item)) items))"
    using Cons.prems dr by (intro Cons.IH) auto
  finally show ?case using dr by simp
qed

lemma json_round_trip:
  assumes "init message = Inr self" "distinct (segments self)"
  shows "fst (json_to_list self) = elist self"
proof -
  let ?ls = "splitlines message"
  let ?parse = "\<lambda>l. Node (fields_loop (segment_fields l) [])"
  note I = init_Inr [OF assms(1)]
  have len: "length (segments self) = length ?ls"
    by (simp add: I(1))
  have "list_to_json_loop (segments self) (elist self) 0 [] =
        Inr ([] @ zip (drop 0 (segments self))
                    (map (\<lambda>item. extend_items (gen_json item)) (elist self)))"
    using assms(2) len by (intro list_to_json_loop_eq) (simp_all add: I(2))
  with I(4) have j: "json self =
      zip (segments self) (map (\<lambda>item. extend_items (gen_json item)) (elist self))"
    by simp
  have "map (\<lambda>(key, v). Node v) (json self) = map Node (map snd (json self))"
    by (simp add: case_prod_unfold)
  also have "map snd (json self) = map (\<lambda>item. extend_items (gen_json item)) (elist self)"
    unfolding j using len by (intro map_snd_zip) (simp add: I(2))
  also have "map Node (map (\<lambda>item. extend_items (gen_json item)) (elist self)) =
             map gen_json (elist self)"
    by (simp add: I(2))
  finally have "fst (json_to_list self) = remove_fillers (map gen_json (elist self))"
    by (simp add: json_to_list_def)
  then show ?thesis
    by (simp add: remove_fillers_map_gen_json remove_fillers_gen_json)
qed

lemma under_iff: "under p k \<longleftrightarrow> (\<exists>r. k = p @ r \<and> (r = [] \<or> hd r = DOT))"
proof
  assume "under p k"
  then have "k = p @ drop (length p) k \<and> (drop (length p) k = [] \<or> hd (drop (length p) k) = DOT)"
    unfolding under_def by (metis append_take_drop_id)
  then show "\<exists>r. k = p @ r \<and> (r = [] \<or> hd r = DOT)" by blast
next
  assume "\<exists>r. k = p @ r \<and> (r = [] \<or> hd r = DOT)"
  then show "under p k" by (auto simp: under_def)
qed

lemma under_refl: "under p p"
  by (simp add: under_def)

lemma under_trans: "under (p @ DOT # q) k \<Longrightarrow> under p k"
  by (auto simp: under_iff)

lemma takeWhile_tail:
  assumes "DOT \<notin> set q" "r = [] \<or> hd r = DOT"
  shows "takeWhile (\<lambda>c. c \<noteq> DOT) (q @ r) = q"
proof -
  have "takeWhile (\<lambda>c. c \<noteq> DOT) r = []"
    using assms(2) by (cases r) auto
  moreover have "\<forall>c \<in> set q. c \<noteq> DOT"
    using assms(1) by auto
  ultimately show ?thesis by (simp add: takeWhile_append2)
qed

lemma under_takeWhile: "DOT \<notin> set p \<Longrightarrow> under p k \<Longrightarrow> takeWhile (\<lambda>c. c \<noteq> DOT) k = p"
  by (auto simp: under_iff takeWhile_tail)

lemma under_child_inj:
  assumes "DOT \<notin> set q" "DOT \<notin> set q'" "under (p @ DOT # q) k" "under (p @ DOT # q') k"
  shows "q = q'"
proof -
  from assms(3) obtain r where r: "k = (p @ DOT # q) @ r" "r = [] \<or> hd r = DOT"
    unfolding under_iff by blast
  from assms(4) obtain r' where r': "k = (p @ DOT # q') @ r'" "r' = [] \<or> hd r' = DOT"
    unfolding under_iff by blast
  from r(1) r'(1) have "q @ r = q' @ r'" by simp
  then have "takeWhile (\<lambda>c. c \<noteq> DOT) (q @ r) = takeWhile (\<lambda>c. c \<noteq> DOT) (q' @ r')" by simp
  then show ?thesis
    using assms(1,2) r(2) r'(2) by (simp add: takeWhile_tail)
qed

lemma str_no_dot: "DOT \<notin> set (str (int n))"
  using str_nat_digits is_digit_not_dot by (auto simp: str_int_nat)

lemma str_index_inj: "str (int a + 1) = str (int b + 1) \<Longrightarrow> a = b"
proof -
  assume "str (int a + 1) = str (int b + 1)"
  then have "str (int (Suc a)) = str (int (Suc b))" by (simp add: add.commute)
  then have "Suc a = Suc b" unfolding str_int_nat by (rule str_nat_inj)
  then show ?thesis by simp
qed

lemma str_index_no_dot: "DOT \<notin> set (str (int a + 1))"
  using str_no_dot [of "Suc a"] by (simp add: add.commute)

lemma tree_paths_keys:
  "k \<in> fst ` set (tree_paths t p) \<Longrightarrow> under p k"
  "k \<in> fst ` set (tree_list_paths ts i p) \<Longrightarrow>
     \<exists>j. i \<le> j \<and> j < i + length ts \<and> under (p @ DOT # str (int j + 1)) k"
proof (induction t p and ts i p arbitrary: k and k rule: tree_paths_tree_list_paths.induct)
  case (1 s path)
  then show ?case by (simp add: under_refl)
next
  case (2 ts path)
  then obtain j where "under (path @ DOT # str (int j + 1)) k" by fastforce
  then show ?case by (rule under_trans)
next
  case (3 index path)
  then show ?case by simp
next
  case (4 t ts index path)
  from "4.prems" consider
    "k \<in> fst ` set (tree_paths t (path @ [DOT] @ str (int index + 1)))"
    | "k \<in> fst ` set (tree_list_paths ts (index + 1) path)"
    by auto
  then show ?case
  proof cases
    case 1
    then have "under (path @ DOT # str (int index + 1)) k"
      using "4.IH"(1) by simp
    then show ?thesis by auto
  next
    case 2
    then obtain j where "index + 1 \<le> j" "j < index + 1 + length ts"
      "under (path @ DOT # str (int j + 1)) k"
      using "4.IH"(2) by blast
    then show ?thesis by (intro exI [of _ j]) simp
  qed
qed

lemma tree_paths_distinct:
  "distinct (map fst (tree_paths t p))"
  "distinct (map fst (tree_list_paths ts i p))"
proof (induction t p and ts i p rule: tree_paths_tree_list_paths.induct)
  case (4 t ts index path)
  have "fst ` set (tree_paths t (path @ [DOT] @ str (int index + 1))) \<inter>
        fst ` set (tree_list_paths ts (index + 1) path) = {}"
  proof (rule ccontr)
    assume "\<not> ?thesis"
    then obtain k where k1: "k \<in> fst ` set (tree_paths t (path @ [DOT] @ str (int index + 1)))"
      and k2: "k \<in> fst ` set (tree_list_paths ts (index + 1) path)" by blast
    from tree_paths_keys(1) [OF k1] have u1: "under (path @ DOT # str (int index + 1)) k"
      by simp
    from tree_paths_keys(2) [OF k2] obtain j where j: "index + 1 \<le> j"
      and u2: "under (path @ DOT # str (int j + 1)) k" by blast
    from under_child_inj [OF str_index_no_dot str_index_no_dot u1 u2]
    have "index = j" by (rule str_index_inj)
    with j show False by simp
  qed
  with 4 show ?case by simp
qed simp_all

lemma length_tree_paths:
  "length (tree_paths t p) = leaves t"
  "length (tree_list_paths ts i p) = sum_list (map leaves ts)"
  by (induction t p and ts i p rule: tree_paths_tree_list_paths.induct) simp_all

lemma pydict_update_fresh:
  "distinct (map fst d @ map fst d') \<Longrightarrow> pydict_update d d' = d @ d'"
proof (induction d' arbitrary: d)
  case Nil
  then show ?case by simp
next
  case (Cons e d')
  obtain k v where e: "e = (k, v)" by (cases e)
  with Cons.prems have "k \<notin> fst ` set d" by auto
  then have "pydict_update d (e # d') = pydict_update (d @ [(k, v)]) d'"
    by (simp add: e pydict_set_fresh)
  also have "\<dots> = (d @ [(k, v)]) @ d'"
    using Cons.prems e by (intro Cons.IH) auto
  finally show ?case by (simp add: e)
qed

lemma gen_dict_tree_paths:
  "p \<noteq> [] \<Longrightarrow> gen_dict segs t p = Inr (tree_paths t p)"
  "p \<noteq> [] \<Longrightarrow> distinct (map fst d @ map fst (tree_list_paths ts i p)) \<Longrightarrow>
     gen_dict_loop segs ts i p d = Inr (d @ tree_list_paths ts i p)"
proof (induction segs t p and segs ts i p d rule: gen_dict_gen_dict_loop.induct)
  case (1 segs data path)
  have "distinct (map fst [] @ map fst (tree_list_paths data 0 path))"
    by (simp add: tree_paths_distinct)
  with 1 show ?case by simp
next
  case (2 segs data path)
  then show ?case by simp
next
  case (3 segs index path hl7_dictionary)
  then show ?case by simp
next
  case (4 segs item rest index path hl7_dictionary)
  let ?np = "path @ [DOT] @ str (int index + 1)"
  have a: "gen_dict segs item ?np = Inr (tree_paths item ?np)"
    using "4.IH"(1) [of ?np] "4.prems"(1) by simp
  have b: "pydict_update hl7_dictionary (tree_paths item ?np) =
           hl7_dictionary @ tree_paths item ?np"
    using "4.prems"(2) by (intro pydict_update_fresh) auto
  have np: "(if path \<noteq> [] then Inr ?np else nth_err segs index) = Inr ?np"
    using "4.prems"(1) by simp
  have dis: "distinct (map fst (pydict_update hl7_dictionary (tree_paths item ?np)) @
                       map fst (tree_list_paths rest (index + 1) path))"
    unfolding b using "4.prems"(2) by auto
  have c: "gen_dict_loop segs rest (index + 1) path
             (pydict_update hl7_dictionary (tree_paths item ?np)) =
           Inr (pydict_update hl7_dictionary (tree_paths item ?np) @
                tree_list_paths rest (index + 1) path)"
    by (rule "4.IH"(2) [OF np a "4.prems"(1) dis])
  have "gen_dict_loop segs (item # rest) index path hl7_dictionary =
        gen_dict_loop segs rest (index + 1) path
          (pydict_update hl7_dictionary (tree_paths item ?np))"
    using "4.prems"(1) a by simp
  also note c
  finally have "gen_dict_loop segs (item # rest) index path hl7_dictionary =
        Inr (pydict_update hl7_dictionary (tree_paths item ?np) @
             tree_list_paths rest (index + 1) path)" .
  then show ?case unfolding b by simp
qed

lemma init_unfold:
  "init message =
   bind_err
     (gen_dict (sort_segments (map segment_id (splitlines message)))
        (Node (map (\<lambda>l. Node (fields_loop (segment_fields l) [])) (splitlines message))) [])
     (\<lambda>d. bind_err
            (list_to_json_loop (sort_segments (map segment_id (splitlines message)))
               (map (\<lambda>l. Node (fields_loop (segment_fields l) [])) (splitlines message)) 0 [])
            (\<lambda>j. Inr \<lparr>hl7_message = strip message,
                       segments = sort_segments (map segment_id (splitlines message)),
                       elist = map (\<lambda>l. Node (fields_loop (segment_fields l) []))
                                 (splitlines message),
                       dict = d, json = j, hl7 = None\<rparr>))"
proof -
  have h: "hl7_to_list
             \<lparr>hl7_message = strip message, segments = [], elist = [], dict = [], json = [],
              hl7 = None\<rparr> (Some message) =
           Inr \<lparr>hl7_message = strip message,
                segments = sort_segments (map segment_id (splitlines message)),
                elist = map (\<lambda>l. Node (fields_loop (segment_fields l) [])) (splitlines message),
                dict = [], json = [], hl7 = None\<rparr>"
  proof (cases "message = []")
    case True
    then show ?thesis
      by (simp add: hl7_to_list_def segments_loop_eq strip_def rstrip_def)
  next
    case False
    then show ?thesis
      by (simp add: hl7_to_list_def segments_loop_eq)
  qed
  show ?thesis
    unfolding init_def h
    by (simp add: bind_err_def list_to_dict_def list_to_json_def split: sum.splits)
qed

lemma gen_dict_top:
  assumes "\<And>s. s \<in> set segs \<Longrightarrow> s \<noteq> [] \<and> DOT \<notin> set s" "distinct segs"
    and "i + length items \<le> length segs" "distinct (map fst d)"
    and "\<And>k. k \<in> fst ` set d \<Longrightarrow> \<exists>j<i. under (segs ! j) k"
  shows "gen_dict_loop segs items i [] d =
         Inr (d @ concat (map (\<lambda>(s, t). tree_paths t s) (zip (drop i segs) items))) \<and>
         distinct (map fst (d @ concat (map (\<lambda>(s, t). tree_paths t s) (zip (drop i segs) items))))"
  using assms(3-5)
proof (induction items arbitrary: i d)
  case Nil
  then show ?case by simp
next
  case (Cons item items)
  then have i: "i < length segs" by simp
  then have dr: "drop i segs = segs ! i # drop (Suc i) segs"
    by (simp add: Cons_nth_drop_Suc)
  have si: "segs ! i \<noteq> []" "DOT \<notin> set (segs ! i)"
    using assms(1) [of "segs ! i"] i by simp_all
  let ?new = "tree_paths item (segs ! i)"
  have a: "gen_dict segs item (segs ! i) = Inr ?new"
    using si(1) by (rule gen_dict_tree_paths(1))
  have disj: "fst ` set d \<inter> fst ` set ?new = {}"
  proof (rule ccontr)
    assume "\<not> ?thesis"
    then obtain k where k1: "k \<in> fst ` set d" and k2: "k \<in> fst ` set ?new" by blast
    from Cons.prems(3) [OF k1] obtain j where j: "j < i" "under (segs ! j) k" by blast
    have "DOT \<notin> set (segs ! j)"
      using assms(1) [of "segs ! j"] i j(1) by simp
    then have "takeWhile (\<lambda>c. c \<noteq> DOT) k = segs ! j"
      using j(2) by (rule under_takeWhile)
    moreover have "takeWhile (\<lambda>c. c \<noteq> DOT) k = segs ! i"
      using si(2) tree_paths_keys(1) [OF k2] by (rule under_takeWhile)
    ultimately have "segs ! j = segs ! i" by simp
    then have "j = i"
      using assms(2) i j(1) by (simp add: nth_eq_iff_index_eq)
    with j(1) show False by simp
  qed
  have b: "pydict_update d ?new = d @ ?new"
    using Cons.prems(2) disj by (intro pydict_update_fresh) (simp add: tree_paths_distinct)
  have step: "gen_dict_loop segs (item # items) i [] d = gen_dict_loop segs items (Suc i) [] (d @ ?new)"
    using i a b by (simp add: nth_err_def)
  have "gen_dict_loop segs items (Suc i) [] (d @ ?new) =
        Inr ((d @ ?new) @
             concat (map (\<lambda>(s, t). tree_paths t s) (zip (drop (Suc i) segs) items))) \<and>
        distinct (map fst ((d @ ?new) @
             concat (map (\<lambda>(s, t). tree_paths t s) (zip (drop (Suc i) segs) items))))"
  proof (rule Cons.IH)
    show "Suc i + length items \<le> length segs" using Cons.prems(1) by simp
    show "distinct (map fst (d @ ?new))"
      using Cons.prems(2) disj by (simp add: tree_paths_distinct)
    fix k assume "k \<in> fst ` set (d @ ?new)"
    then consider "k \<in> fst ` set d" | "k \<in> fst ` set ?new" by auto
    then show "\<exists>j<Suc i. under (segs ! j) k"
    proof cases
      case 1
      from Cons.prems(3) [OF 1] show ?thesis using less_Suc_eq by blast
    next
      case 2
      from tree_paths_keys(1) [OF 2] show ?thesis by blast
    qed
  qed
  with step show ?case by (simp add: dr)
qed

lemma policy_name_plain:
  assumes "plain_id x"
  shows "policy_name earlier x \<noteq> []" "DOT \<notin> set (policy_name earlier x)"
proof -
  show "policy_name earlier x \<noteq> []"
    using assms by (simp add: policy_name_def plain_id_def)
  show "DOT \<notin> set (policy_name earlier x)"
    using assms str_no_dot by (simp add: policy_name_def plain_id_def)
qed

lemma sort_segments_plain:
  assumes "\<And>x. x \<in> set xs \<Longrightarrow> plain_id x" "s \<in> set (sort_segments xs)"
  shows "s \<noteq> [] \<and> DOT \<notin> set s"
proof -
  from assms(2) obtain i where "i < length xs" "s = policy_name (take i xs) (xs ! i)"
    by (auto simp: sort_segments_eq)
  then show ?thesis
    using policy_name_plain [OF assms(1) [of "xs ! i"]] by simp
qed

lemma length_concat_paths:
  "length segs = length items \<Longrightarrow>
   length (concat (map (\<lambda>(s, t). tree_paths t s) (zip segs items))) =
   sum_list (map leaves items)"
  by (induction segs items rule: list_induct2) (simp_all add: length_tree_paths)

lemma mapping_of_plain_message:
  assumes "\<And>line. line \<in> set (splitlines message) \<Longrightarrow> plain_id (segment_id line)"
  shows "\<exists>self. init message = Inr self \<and>
           dict self = concat (map (\<lambda>(s, t). tree_paths t s) (zip (segments self) (elist self))) \<and>
           length (dict self) = leaves (Node (elist self)) \<and>
           distinct (map fst (dict self))"
proof -
  let ?ids = "map segment_id (splitlines message)"
  let ?segs = "sort_segments ?ids"
  let ?data = "map (\<lambda>l. Node (fields_loop (segment_fields l) [])) (splitlines message)"
  let ?d = "concat (map (\<lambda>(s, t). tree_paths t s) (zip ?segs ?data))"
  have plain: "x \<in> set ?ids \<Longrightarrow> plain_id x" for x
    using assms by auto
  have dist: "distinct ?segs"
    by (rule sort_segments_distinct) (use plain in \<open>simp add: plain_id_def\<close>)
  have ok: "s \<in> set ?segs \<Longrightarrow> s \<noteq> [] \<and> DOT \<notin> set s" for s
    using sort_segments_plain [of ?ids s] plain by blast
  have "gen_dict_loop ?segs ?data 0 [] [] =
        Inr ([] @ concat (map (\<lambda>(s, t). tree_paths t s) (zip (drop 0 ?segs) ?data))) \<and>
        distinct (map fst ([] @ concat (map (\<lambda>(s, t). tree_paths t s) (zip (drop 0 ?segs) ?data))))"
    by (rule gen_dict_top [OF ok dist]) simp_all
  then have gd: "gen_dict ?segs (Node ?data) [] = Inr ?d" and dd: "distinct (map fst ?d)"
    by simp_all
  have "list_to_json_loop ?segs ?data 0 [] =
        Inr ([] @ zip (drop 0 ?segs) (map (\<lambda>item. extend_items (gen_json item)) ?data))"
    using dist by (intro list_to_json_loop_eq) simp_all
  then obtain j where js: "list_to_json_loop ?segs ?data 0 [] = Inr j" by blast
  let ?self = "\<lparr>hl7_message = strip message, segments = ?segs, elist = ?data,
                dict = ?d, json = j, hl7 = None\<rparr>"
  have i: "init message = Inr ?self"
    unfolding init_unfold gd js by (simp add: bind_err_def)
  have len: "length ?d = leaves (Node ?data)"
    using length_concat_paths [of ?segs ?data] by simp
  from dd i len show ?thesis by (intro exI [of _ ?self]) simp
qed

lemma join_Cons: "xs \<noteq> [] \<Longrightarrow> join sep (x # xs) = x @ sep @ join sep xs"
  by (cases xs) simp_all

lemma join_Cons_Cons: "join sep ((c # l) # ls) = c # join sep (l # ls)"
  by (cases ls) simp_all

lemma join_split: "join [sep] (py_split sep s) = s"
proof (induction s)
  case Nil
  then show ?case by simp
next
  case (Cons c cs)
  obtain l ls where l: "py_split sep cs = l # ls"
    by (cases "py_split sep cs") simp_all
  show ?case
  proof (cases "c = sep")
    case True
    then show ?thesis using Cons by (simp add: join_Cons)
  next
    case False
    then show ?thesis using Cons l by (simp add: join_Cons_Cons)
  qed
qed

lemma butlast_concat_join: "butlast (concat (map (\<lambda>x. x @ [c]) xs)) = join [c] xs"
proof (induction xs)
  case Nil
  then show ?case by simp
next
  case (Cons x xs)
  show ?case
  proof (cases "xs = []")
    case True
    then show ?thesis by (simp add: butlast_append)
  next
    case False
    then have "concat (map (\<lambda>x. x @ [c]) xs) \<noteq> []"
      by (cases xs) simp_all
    then show ?thesis
      using Cons False by (simp add: butlast_append join_Cons)
  qed
qed

lemma py_split_subset: "x \<in> set (py_split sep s) \<Longrightarrow> set x \<subseteq> set s - {sep}"
proof (induction s arbitrary: x)
  case Nil
  then show ?case by simp
next
  case (Cons c cs)
  obtain l ls where l: "py_split sep cs = l # ls"
    by (cases "py_split sep cs") simp_all
  show ?case
  proof (cases "c = sep")
    case True
    with Cons.prems have "x = [] \<or> x \<in> set (py_split sep cs)" by simp
    then show ?thesis using Cons.IH by auto
  next
    case False
    with Cons.prems l have "x = c # l \<or> x \<in> set ls" by simp
    then show ?thesis
    proof
      assume "x = c # l"
      moreover have "set l \<subseteq> set cs - {sep}" using Cons.IH [of l] l by simp
      ultimately show ?thesis using False by auto
    next
      assume "x \<in> set ls"
      then have "set x \<subseteq> set cs - {sep}" using Cons.IH [of x] l by simp
      then show ?thesis by auto
    qed
  qed
qed

lemma py_split_no_sep: "sep \<notin> set s \<Longrightarrow> py_split sep s = [s]"
  by (induction s) auto

lemma py_split_sep: "sep \<in> set s \<Longrightarrow> \<exists>a b bs. py_split sep s = a # b # bs"
proof (induction s)
  case Nil
  then show ?case by simp
next
  case (Cons c cs)
  obtain l ls where l: "py_split sep cs = l # ls"
    by (cases "py_split sep cs") simp_all
  show ?case
  proof (cases "c = sep")
    case True
    then show ?thesis using l by simp
  next
    case False
    with Cons.prems have "sep \<in> set cs" by simp
    with Cons.IH l obtain b bs where "ls = b # bs" by auto
    then show ?thesis using False l by simp
  qed
qed

lemma py_split_hd: "\<exists>r. py_split sep s = takeWhile (\<lambda>c. c \<noteq> sep) s # r"
proof (induction s)
  case Nil
  then show ?case by simp
next
  case (Cons c cs)
  then obtain r where "py_split sep cs = takeWhile (\<lambda>c. c \<noteq> sep) cs # r" by blast
  then show ?case by simp
qed

lemma separators_nth [simp]:
  "nth_err separators 0 = Inr []"
  "nth_err separators 1 = Inr [LF]"
  "nth_err separators 2 = Inr [BAR]"
  "nth_err separators 3 = Inr [HAT]"
  "nth_err separators 4 = Inr [TILDE]"
  by (simp_all add: nth_err_def separators_def)

lemma gen_hl7_loop_leaves:
  assumes "\<And>x. x \<in> set xs \<Longrightarrow> x \<noteq> [BAR]"
    and "nth_err separators (if depth < 3 then depth + 1 else depth) = Inr sp"
  shows "gen_hl7_loop segs (map Leaf xs) depth ns msg p =
         Inr (msg @ concat (map (\<lambda>x. x @ sp) xs))"
  using assms(1)
proof (induction xs arbitrary: msg)
  case Nil
  then show ?case by simp
next
  case (Cons x xs)
  have "x \<noteq> [BAR]" using Cons.prems by simp
  then have "gen_hl7_loop segs (map Leaf (x # xs)) depth ns msg p =
             gen_hl7_loop segs (map Leaf xs) depth ns (msg @ x @ sp) p"
    using assms(2) by simp
  also have "\<dots> = Inr ((msg @ x @ sp) @ concat (map (\<lambda>x. x @ sp) xs))"
    using Cons.prems by (intro Cons.IH) simp
  finally show ?case by simp
qed

lemma gen_hl7_components:
  assumes "BAR \<notin> set f"
  shows "gen_hl7 segs (map Leaf (py_split HAT f)) 2 True = Inr (f @ [BAR])"
    and "gen_hl7 segs (map Leaf (py_split HAT f)) 3 True = Inr (f @ [TILDE])"
proof -
  have nb: "x \<in> set (py_split HAT f) \<Longrightarrow> x \<noteq> [BAR]" for x
    using py_split_subset [of x HAT f] assms by auto
  have 2: "gen_hl7_loop segs (map Leaf (py_split HAT f)) 2 True [] 0 =
           Inr ([] @ concat (map (\<lambda>x. x @ [HAT]) (py_split HAT f)))"
    by (rule gen_hl7_loop_leaves) (use nb in simp_all)
  have 3: "gen_hl7_loop segs (map Leaf (py_split HAT f)) 3 True [] 0 =
           Inr ([] @ concat (map (\<lambda>x. x @ [HAT]) (py_split HAT f)))"
    by (rule gen_hl7_loop_leaves) (use nb in simp_all)
  show "gen_hl7 segs (map Leaf (py_split HAT f)) 2 True = Inr (f @ [BAR])"
    using 2 by (simp add: butlast_concat_join join_split)
  show "gen_hl7 segs (map Leaf (py_split HAT f)) 3 True = Inr (f @ [TILDE])"
    using 3 by (simp add: butlast_concat_join join_split)
qed

lemma gen_hl7_loop_repetitions:
  assumes "\<And>r. r \<in> set reps \<Longrightarrow> BAR \<notin> set r"
  shows "gen_hl7_loop segs (map (\<lambda>repetition. Node (map Leaf (py_split HAT repetition))) reps)
           2 True msg p =
         Inr (msg @ concat (map (\<lambda>r. r @ [TILDE]) reps))"
  using assms
proof (induction reps arbitrary: msg)
  case Nil
  then show ?case by simp
next
  case (Cons r reps)
  have "BAR \<notin> set r" using Cons.prems by simp
  note g = gen_hl7_components(2) [OF this, of segs]
  have "gen_hl7_loop segs (map (\<lambda>repetition. Node (map Leaf (py_split HAT repetition))) (r # reps))
          2 True msg p =
        gen_hl7_loop segs (map (\<lambda>repetition. Node (map Leaf (py_split HAT repetition))) reps)
          2 True (msg @ r @ [TILDE]) p"
    using g by (simp del: gen_hl7.simps)
  also have "\<dots> = Inr ((msg @ r @ [TILDE]) @ concat (map (\<lambda>r. r @ [TILDE]) reps))"
    using Cons.prems by (intro Cons.IH) simp
  finally show ?case by simp
qed

lemma gen_hl7_repetitions:
  assumes "BAR \<notin> set f"
  shows "gen_hl7 segs (map (\<lambda>repetition. Node (map Leaf (py_split HAT repetition)))
                        (py_split TILDE f)) 2 True = Inr (f @ [BAR])"
proof -
  have "r \<in> set (py_split TILDE f) \<Longrightarrow> BAR \<notin> set r" for r
    using py_split_subset [of r TILDE f] assms by auto
  then have "gen_hl7_loop segs (map (\<lambda>repetition. Node (map Leaf (py_split HAT repetition)))
                        (py_split TILDE f)) 2 True [] 0 =
        Inr ([] @ concat (map (\<lambda>r. r @ [TILDE]) (py_split TILDE f)))"
    by (rule gen_hl7_loop_repetitions)
  then show ?thesis
    by (simp add: butlast_concat_join join_split)
qed

lemma gen_hl7_loop_append:
  "gen_hl7_loop segs (xs @ ys) depth True msg p =
   (case gen_hl7_loop segs xs depth True msg p of
      Inl e \<Rightarrow> Inl e
    | Inr m \<Rightarrow> gen_hl7_loop segs ys depth True m p)"
proof (induction xs arbitrary: msg)
  case Nil
  then show ?case by simp
next
  case (Cons x xs)
  show ?case
  proof (cases x)
    case (Leaf s)
    then show ?thesis using Cons by (simp split: sum.splits)
  next
    case (Node ts)
    then show ?thesis using Cons by (simp del: gen_hl7.simps split: sum.splits)
  qed
qed

lemma fields_loop_acc: "fields_loop fs acc = acc @ fields_loop fs []"
proof (induction fs arbitrary: acc)
  case Nil
  then show ?case by simp
next
  case (Cons f fs)
  show ?case
    by (subst (1 2) fields_loop.simps) (simp add: Cons [of "_ @ _"] Cons [of "[_]"] Cons [of "[_, _]"] Cons [of "map _ _"])
qed

lemma fields_loop_Cons: "fields_loop (f # fs) [] = fields_loop [f] [] @ fields_loop fs []"
  by (simp add: fields_loop_acc [of fs "_ # _"] fields_loop_acc [of fs "map _ _"])

lemma fields_loop_append: "fields_loop (xs @ ys) [] = fields_loop xs [] @ fields_loop ys []"
proof (induction xs)
  case Nil
  then show ?case by simp
next
  case (Cons x xs)
  have "fields_loop ((x # xs) @ ys) [] = fields_loop [x] [] @ fields_loop (xs @ ys) []"
    using fields_loop_Cons [of x "xs @ ys"] by (simp only: append_Cons)
  also have "\<dots> = fields_loop [x] [] @ fields_loop xs [] @ fields_loop ys []"
    by (simp only: Cons)
  also have "\<dots> = fields_loop (x # xs) [] @ fields_loop ys []"
    using fields_loop_Cons [of x xs] by (simp only: append_assoc)
  finally show ?case .
qed

lemma separators_Suc [simp]:
  "nth_err separators (Suc 0) = Inr [LF]"
  "nth_err separators (Suc (Suc 0)) = Inr [BAR]"
  "nth_err separators (Suc (Suc (Suc 0))) = Inr [HAT]"
  by (simp_all add: nth_err_def separators_def)

lemma encoding_characters_not_bar: "encoding_characters \<noteq> [BAR]"
  by (simp add: encoding_characters_def)

lemma py_split_single: "py_split sep s = [x] \<Longrightarrow> x = s"
  using join_split [of sep s] by simp

lemma gen_hl7_loop_field:
  assumes "BAR \<notin> set f"
  shows "gen_hl7_loop segs (fields_loop [f] []) 1 True msg p = Inr (msg @ f @ [BAR])"
proof -
  consider (enc) "f = encoding_characters"
    | (rep) "f \<noteq> encoding_characters" "TILDE \<in> set f"
    | (one) "f \<noteq> encoding_characters" "TILDE \<notin> set f" "length (py_split HAT f) = 1"
    | (sub) "f \<noteq> encoding_characters" "TILDE \<notin> set f" "length (py_split HAT f) \<noteq> 1"
    by blast
  then show ?thesis
  proof cases
    case enc
    then show ?thesis by (simp add: encoding_characters_not_bar)
  next
    case rep
    then show ?thesis
      using gen_hl7_repetitions [OF assms, of segs, unfolded numeral_2_eq_2] by (simp del: gen_hl7.simps)
  next
    case one
    then obtain x where x: "py_split HAT f = [x]"
      by (cases "py_split HAT f") simp_all
    then have "x = f" by (rule py_split_single)
    moreover have "f \<noteq> [BAR]" using assms by auto
    ultimately show ?thesis using one x by simp
  next
    case sub
    then show ?thesis
      using gen_hl7_components(1) [OF assms, of segs, unfolded numeral_2_eq_2] by (simp del: gen_hl7.simps)
  qed
qed

lemma gen_hl7_loop_fields:
  assumes "\<And>f. f \<in> set fs \<Longrightarrow> BAR \<notin> set f"
  shows "gen_hl7_loop segs (fields_loop fs []) 1 True msg p =
         Inr (msg @ concat (map (\<lambda>f. f @ [BAR]) fs))"
  using assms
proof (induction fs arbitrary: msg)
  case Nil
  then show ?case by simp
next
  case (Cons f fs)
  have f: "BAR \<notin> set f" using Cons.prems by simp
  have "fields_loop (f # fs) [] = fields_loop [f] [] @ fields_loop fs []"
    by (rule fields_loop_Cons)
  then have "gen_hl7_loop segs (fields_loop (f # fs) []) 1 True msg p =
             gen_hl7_loop segs (fields_loop fs []) 1 True (msg @ f @ [BAR]) p"
    by (simp only: gen_hl7_loop_append gen_hl7_loop_field [OF f] sum.case)
  also have "\<dots> = Inr ((msg @ f @ [BAR]) @ concat (map (\<lambda>f. f @ [BAR]) fs))"
    using Cons.prems by (intro Cons.IH) simp
  finally show ?case by simp
qed

lemma segment_fields_no_bar: "f \<in> set (segment_fields line) \<Longrightarrow> BAR \<notin> set f"
  using py_split_subset [of f BAR line] by (auto simp: py_split_Cons)

lemma segment_id_no_bar: "BAR \<notin> set (segment_id line)"
  using py_split_subset [of "segment_id line" BAR line] by (auto simp: py_split_Cons)

lemma gen_hl7_segment:
  "gen_hl7 segs (fields_loop (segment_fields line) []) 1 True =
   Inr (join [BAR] (segment_fields line) @ [LF])"
proof -
  have "gen_hl7_loop segs (fields_loop (segment_fields line) []) 1 True [] 0 =
        Inr ([] @ concat (map (\<lambda>f. f @ [BAR]) (segment_fields line)))"
    by (rule gen_hl7_loop_fields) (rule segment_fields_no_bar)
  then show ?thesis by (simp add: butlast_concat_join)
qed

lemma gen_hl7_loop_top:
  assumes "i + length ls = length segs"
  shows "gen_hl7_loop segs (map (\<lambda>l. Node (fields_loop (segment_fields l) [])) ls) 0 False msg i =
         Inr (msg @ concat (map (\<lambda>(s, l). segment_text s l @ [LF]) (zip (drop i segs) ls)))"
  using assms
proof (induction ls arbitrary: i msg)
  case Nil
  then show ?case by simp
next
  case (Cons l ls)
  then have i: "i < length segs" by simp
  then have dr: "drop i segs = segs ! i # drop (Suc i) segs"
    by (simp add: Cons_nth_drop_Suc)
  obtain r where r: "py_split USCORE (segs ! i) = takeWhile (\<lambda>c. c \<noteq> USCORE) (segs ! i) # r"
    using py_split_hd by blast
  let ?msg = "msg @ segment_text (segs ! i) l @ [LF]"
  let ?p = "if int i < int (length segs) - 1 then i + 1 else i"
  have step: "gen_hl7_loop segs (map (\<lambda>l. Node (fields_loop (segment_fields l) [])) (l # ls))
                0 False msg i =
              gen_hl7_loop segs (map (\<lambda>l. Node (fields_loop (segment_fields l) [])) ls)
                0 False ?msg ?p"
    using i r gen_hl7_segment [of segs l]
    by (simp add: nth_err_def segment_text_def del: gen_hl7.simps)
  show ?case
  proof (cases "ls = []")
    case True
    then show ?thesis using step dr by simp
  next
    case False
    with Cons.prems have p: "?p = Suc i" by (cases ls) auto
    have "gen_hl7_loop segs (map (\<lambda>l. Node (fields_loop (segment_fields l) [])) ls)
            0 False ?msg (Suc i) =
          Inr (?msg @ concat (map (\<lambda>(s, l). segment_text s l @ [LF]) (zip (drop (Suc i) segs) ls)))"
      using Cons.prems by (intro Cons.IH) simp
    then show ?thesis using step p dr by simp
  qed
qed

lemma gen_hl7_top:
  assumes "length ls = length segs"
  shows "gen_hl7 segs (map (\<lambda>l. Node (fields_loop (segment_fields l) [])) ls) 0 False =
         Inr (join [LF] (map (\<lambda>(s, l). segment_text s l) (zip segs ls)))"
proof -
  have "gen_hl7_loop segs (map (\<lambda>l. Node (fields_loop (segment_fields l) [])) ls) 0 False [] 0 =
        Inr ([] @ concat (map (\<lambda>(s, l). segment_text s l @ [LF]) (zip (drop 0 segs) ls)))"
    using assms by (intro gen_hl7_loop_top) simp
  moreover have "concat (map (\<lambda>(s, l). segment_text s l @ [LF]) (zip segs ls)) =
                 concat (map (\<lambda>x. x @ [LF]) (map (\<lambda>(s, l). segment_text s l) (zip segs ls)))"
    by (simp add: case_prod_unfold o_def)
  ultimately show ?thesis
    by (simp add: butlast_concat_join del: map_map)
qed

lemma list_to_hl7_init:
  assumes "init message = Inr self"
  shows "list_to_hl7 self =
         Inr (self\<lparr>hl7 := Some (join [LF] (map (\<lambda>(s, l). segment_text s l)
                                           (zip (segments self) (splitlines message))))\<rparr>)"
proof -
  note I = init_Inr [OF assms]
  have "gen_hl7 (segments self) (elist self) 0 False =
        Inr (join [LF] (map (\<lambda>(s, l). segment_text s l) (zip (segments self) (splitlines message))))"
    unfolding I(2) by (rule gen_hl7_top) (simp add: I(1))
  then show ?thesis by (simp add: list_to_hl7_def bind_err_def)
qed

lemma splitlines_not_Nil: "s \<noteq> [] \<Longrightarrow> splitlines s \<noteq> []"
  by (induction s rule: splitlines.induct) (auto split: list.splits)

lemma splitlines_no_linebreak:
  "l \<in> set (splitlines s) \<Longrightarrow> c \<in> set l \<Longrightarrow> \<not> is_linebreak c"
proof (induction s arbitrary: l rule: splitlines.induct)
  case 1
  then show ?case by simp
next
  case (2 c')
  then show ?case by (auto split: if_splits)
next
  case (3 c' d cs)
  show ?case
  proof (cases "c' = CR \<and> d = LF")
    case True
    with "3.prems" "3.IH"(1) show ?thesis by auto
  next
    case False
    note nf = this
    show ?thesis
    proof (cases "is_linebreak c'")
      case True
      with nf "3.prems" "3.IH"(2) show ?thesis by auto
    next
      case False
      obtain l' ls where l': "splitlines (d # cs) = l' # ls"
        using splitlines_not_Nil [of "d # cs"] by (cases "splitlines (d # cs)") simp_all
      have "splitlines (c' # d # cs) = (c' # l') # ls"
        by (simp add: nf False l')
      with "3.prems"(1) have "l = c' # l' \<or> l \<in> set ls" by simp
      then show ?thesis
      proof
        assume "l = c' # l'"
        with "3.prems"(2) have "c = c' \<or> c \<in> set l'" by simp
        then show ?thesis
          using False "3.IH"(3) [OF nf False, of l'] l' by auto
      next
        assume "l \<in> set ls"
        then show ?thesis
          using "3.IH"(3) [OF nf False, of l] l' "3.prems"(2) by simp
      qed
    qed
  qed
qed

lemma splitlines_join:
  assumes "\<And>c. c \<in> set m \<Longrightarrow> is_linebreak c \<Longrightarrow> c = LF"
  shows "m = join [LF] (splitlines m) \<or> m = join [LF] (splitlines m) @ [LF]"
  using assms
proof (induction m rule: splitlines.induct)
  case 1
  then show ?case by simp
next
  case (2 c)
  then show ?case by auto
next
  case (3 c d cs)
  have nf: "\<not> (c = CR \<and> d = LF)"
    using "3.prems" [of c] by (auto simp: is_linebreak_def)
  obtain l ls where l: "splitlines (d # cs) = l # ls"
    using splitlines_not_Nil [of "d # cs"] by (cases "splitlines (d # cs)") simp_all
  show ?case
  proof (cases "is_linebreak c")
    case True
    then have c: "c = LF" using "3.prems" by simp
    have "d # cs = join [LF] (splitlines (d # cs)) \<or>
          d # cs = join [LF] (splitlines (d # cs)) @ [LF]"
      using "3.IH"(2) [OF nf True] "3.prems" by simp
    moreover have "splitlines (c # d # cs) = [] # l # ls"
      by (simp add: nf True l)
    ultimately show ?thesis using c l by auto
  next
    case False
    have "d # cs = join [LF] (splitlines (d # cs)) \<or>
          d # cs = join [LF] (splitlines (d # cs)) @ [LF]"
      using "3.IH"(3) [OF nf False] "3.prems" by simp
    moreover have "splitlines (c # d # cs) = (c # l) # ls"
      by (simp add: nf False l)
    ultimately show ?thesis using l by (auto simp: join_Cons_Cons)
  qed
qed

lemma gen_dict_succeeds:
  "p \<noteq> [] \<Longrightarrow> \<exists>d. gen_dict segs t p = Inr d"
  "p \<noteq> [] \<Longrightarrow> \<exists>d'. gen_dict_loop segs ts i p d = Inr d'"
proof (induction segs t p and segs ts i p d rule: gen_dict_gen_dict_loop.induct)
  case (1 segs data path)
  then show ?case by simp
next
  case (2 segs data path)
  then show ?case by simp
next
  case (3 segs index path hl7_dictionary)
  then show ?case by simp
next
  case (4 segs item rest index path hl7_dictionary)
  let ?np = "path @ [DOT] @ str (int index + 1)"
  have np: "(if path \<noteq> [] then Inr ?np else nth_err segs index) = Inr ?np"
    using "4.prems" by simp
  obtain d1 where d1: "gen_dict segs item ?np = Inr d1"
    using "4.IH"(1) [OF np] by auto
  obtain d2 where "gen_dict_loop segs rest (index + 1) path (pydict_update hl7_dictionary d1) = Inr d2"
    using "4.IH"(2) [OF np d1 "4.prems"] by auto
  then show ?case using "4.prems" d1 by simp
qed

lemma gen_dict_top_succeeds:
  assumes "\<And>s. s \<in> set segs \<Longrightarrow> s \<noteq> []" "i + length items \<le> length segs"
  shows "\<exists>d'. gen_dict_loop segs items i [] d = Inr d'"
  using assms(2)
proof (induction items arbitrary: i d)
  case Nil
  then show ?case by simp
next
  case (Cons item items)
  then have i: "i < length segs" by simp
  then have "segs ! i \<noteq> []" using assms(1) by simp
  then obtain d1 where d1: "gen_dict segs item (segs ! i) = Inr d1"
    using gen_dict_succeeds(1) by blast
  obtain d2 where "gen_dict_loop segs items (Suc i) [] (pydict_update d d1) = Inr d2"
    using Cons.IH [of "Suc i"] Cons.prems by auto
  then show ?case using i d1 by (simp add: nth_err_def)
qed

lemma policy_name_not_Nil: "x \<noteq> [] \<Longrightarrow> policy_name earlier x \<noteq> []"
  by (simp add: policy_name_def)

lemma policy_name_chars:
  assumes "c \<in> set (policy_name earlier x)"
  shows "c \<in> set x \<or> c = USCORE \<or> is_digit c"
  using assms str_nat_digits by (auto simp: policy_name_def str_int_nat split: if_splits)

lemma sort_segments_nth:
  "i < length xs \<Longrightarrow> sort_segments xs ! i = policy_name (take i xs) (xs ! i)"
  by (simp add: sort_segments_eq)

lemma init_succeeds:
  assumes "\<And>line. line \<in> set (splitlines m) \<Longrightarrow>
             segment_id line \<noteq> [] \<and> USCORE \<notin> set (segment_id line)"
  shows "\<exists>self. init m = Inr self"
proof -
  let ?ids = "map segment_id (splitlines m)"
  let ?segs = "sort_segments ?ids"
  let ?data = "map (\<lambda>l. Node (fields_loop (segment_fields l) [])) (splitlines m)"
  have dist: "distinct ?segs"
    by (rule sort_segments_distinct) (use assms in auto)
  have ne: "s \<in> set ?segs \<Longrightarrow> s \<noteq> []" for s
  proof -
    assume "s \<in> set ?segs"
    then obtain i where i: "i < length ?ids" "s = policy_name (take i ?ids) (?ids ! i)"
      by (auto simp: sort_segments_eq)
    then have "?ids ! i \<noteq> []" using assms by simp
    then show ?thesis using i(2) by (simp add: policy_name_not_Nil)
  qed
  obtain d where d: "gen_dict_loop ?segs ?data 0 [] [] = Inr d"
    using gen_dict_top_succeeds [of ?segs 0 ?data "[]"] ne by auto
  have "list_to_json_loop ?segs ?data 0 [] =
        Inr ([] @ zip (drop 0 ?segs) (map (\<lambda>item. extend_items (gen_json item)) ?data))"
    using dist by (intro list_to_json_loop_eq) simp_all
  then obtain j where j: "list_to_json_loop ?segs ?data 0 [] = Inr j" by blast
  have gd: "gen_dict ?segs (Node ?data) [] = Inr d" using d by simp
  show ?thesis
    unfolding init_unfold gd j by (simp add: bind_err_def)
qed

lemma segment_fields_not_Nil: "BAR \<in> set line \<Longrightarrow> segment_fields line \<noteq> []"
  using py_split_sep [of BAR line] by (auto simp: segment_fields_def)

lemma segment_join: "segment_fields line \<noteq> [] \<Longrightarrow>
   segment_id line @ [BAR] @ join [BAR] (segment_fields line) = line"
  using join_split [of BAR line] by (simp add: py_split_Cons join_Cons)

lemma rstrip_LF: "rstrip (s @ [LF]) = rstrip s"
  by (simp add: rstrip_def is_space_def)

lemma round_trip_newline_message:
  assumes "newline_message m"
  shows "\<exists>self self' out. init m = Inr self \<and> list_to_hl7 self = Inr self' \<and>
           hl7 self' = Some out \<and> (m = out \<or> m = out @ [LF]) \<and> rstrip out = rstrip m"
proof -
  let ?ls = "splitlines m"
  let ?ids = "map segment_id ?ls"
  have lb: "\<And>c. c \<in> set m \<Longrightarrow> is_linebreak c \<Longrightarrow> c = LF"
    and ln: "\<And>line. line \<in> set ?ls \<Longrightarrow>
               BAR \<in> set line \<and> segment_id line \<noteq> [] \<and> USCORE \<notin> set (segment_id line)"
    using assms by (auto simp: newline_message_def)
  obtain self where self: "init m = Inr self"
    using init_succeeds [of m] ln by blast
  note I = init_Inr [OF self]
  let ?out = "join [LF] (map (\<lambda>(s, l). segment_text s l) (zip (segments self) ?ls))"
  have l2h: "list_to_hl7 self = Inr (self\<lparr>hl7 := Some ?out\<rparr>)"
    by (rule list_to_hl7_init [OF self])
  have "map (\<lambda>(s, l). segment_text s l) (zip (segments self) ?ls) = ?ls"
  proof (rule nth_equalityI)
    show "length (map (\<lambda>(s, l). segment_text s l) (zip (segments self) ?ls)) = length ?ls"
      by (simp add: I(1))
  next
    fix i assume "i < length (map (\<lambda>(s, l). segment_text s l) (zip (segments self) ?ls))"
    then have i: "i < length ?ls" by simp
    then have mem: "?ls ! i \<in> set ?ls" by simp
    have "segments self ! i = policy_name (take i ?ids) (segment_id (?ls ! i))"
      using i by (simp add: I(1) sort_segments_nth)
    then have "takeWhile (\<lambda>c. c \<noteq> USCORE) (segments self ! i) = segment_id (?ls ! i)"
      using ln [OF mem] by (simp add: takeWhile_policy_name)
    moreover have "segment_id (?ls ! i) @ [BAR] @ join [BAR] (segment_fields (?ls ! i)) = ?ls ! i"
      using ln [OF mem] by (intro segment_join segment_fields_not_Nil) simp
    ultimately have "segment_text (segments self ! i) (?ls ! i) = ?ls ! i"
      by (simp add: segment_text_def)
    then show "map (\<lambda>(s, l). segment_text s l) (zip (segments self) ?ls) ! i = ?ls ! i"
      using i by (simp add: I(1))
  qed
  then have out: "?out = join [LF] ?ls" by simp
  have m: "m = ?out \<or> m = ?out @ [LF]"
    unfolding out using lb by (rule splitlines_join)
  then have "rstrip ?out = rstrip m"
    using rstrip_LF [of ?out] by auto
  with self l2h m show ?thesis by auto
qed

lemma py_split_append: "sep \<notin> set a \<Longrightarrow> py_split sep (a @ sep # b) = a # py_split sep b"
  by (induction a) auto

lemma py_split_join:
  "xs \<noteq> [] \<Longrightarrow> (\<And>x. x \<in> set xs \<Longrightarrow> sep \<notin> set x) \<Longrightarrow> py_split sep (join [sep] xs) = xs"
proof (induction xs)
  case Nil
  then show ?case by simp
next
  case (Cons x xs)
  show ?case
  proof (cases "xs = []")
    case True
    then show ?thesis using Cons.prems(2) [of x] by (simp add: py_split_no_sep)
  next
    case False
    have "py_split sep (join [sep] (x # xs)) = py_split sep (x @ sep # join [sep] xs)"
      using False by (simp add: join_Cons)
    also have "\<dots> = x # py_split sep (join [sep] xs)"
      using Cons.prems(2) [of x] by (intro py_split_append) simp
    also have "py_split sep (join [sep] xs) = xs"
      using False Cons.prems(2) by (intro Cons.IH) simp_all
    finally show ?thesis .
  qed
qed

lemma set_join: "set (join sep xs) \<subseteq> set sep \<union> \<Union> (set ` set xs)"
  by (induction sep xs rule: join.induct) auto

lemma is_digit_not_bar: "is_digit c \<Longrightarrow> c \<noteq> BAR"
  by (auto simp: is_digit_def)

lemma is_digit_not_linebreak: "is_digit c \<Longrightarrow> \<not> is_linebreak c"
  by (auto simp: is_digit_def is_linebreak_def)

lemma segment_id_subset: "set (segment_id line) \<subseteq> set line"
  using py_split_subset [of "segment_id line" BAR line] by (auto simp: py_split_Cons)

lemma segment_fields_subset: "f \<in> set (segment_fields line) \<Longrightarrow> set f \<subseteq> set line"
  using py_split_subset [of f BAR line] by (auto simp: py_split_Cons)

lemma table_entry_chars:
  assumes "init message = Inr self" "i < length (splitlines message)"
    and "c \<in> set (segments self ! i)"
  shows "c \<in> set (segment_id (splitlines message ! i)) \<or> c = USCORE \<or> is_digit c"
proof -
  have "segments self ! i =
        policy_name (take i (map segment_id (splitlines message)))
          (segment_id (splitlines message ! i))"
    using assms(2) by (simp add: init_Inr(1) [OF assms(1)] sort_segments_nth)
  with assms(3) show ?thesis using policy_name_chars by metis
qed

lemma segment_fields_text:
  assumes "BAR \<notin> set s" "segment_fields l \<noteq> []"
  shows "segment_fields (segment_text s l) = segment_fields l"
proof -
  have "BAR \<notin> set (takeWhile (\<lambda>c. c \<noteq> USCORE) s)"
    using assms(1) set_takeWhileD by fastforce
  then have "py_split BAR (segment_text s l) =
             takeWhile (\<lambda>c. c \<noteq> USCORE) s # py_split BAR (join [BAR] (segment_fields l))"
    unfolding segment_text_def by (simp add: py_split_append)
  also have "py_split BAR (join [BAR] (segment_fields l)) = segment_fields l"
    using assms(2) segment_fields_no_bar by (intro py_split_join) auto
  finally show ?thesis by (simp add: segment_fields_def)
qed

lemma encoding_field:
  assumes "init message = Inr self" "i < length (splitlines message)"
    and "segment_fields (splitlines message ! i) = pre @ encoding_characters # post"
  shows "elist self ! i =
           Node (fields_loop pre [] @ [Leaf [BAR], Leaf encoding_characters] @ fields_loop post [])"
    and "\<exists>self' out. list_to_hl7 self = Inr self' \<and> hl7 self' = Some out \<and>
           i < length (py_split LF out) \<and>
           segment_fields (py_split LF out ! i) = pre @ encoding_characters # post"
proof -
  let ?ls = "splitlines message"
  note I = init_Inr [OF assms(1)]
  have "fields_loop (pre @ encoding_characters # post) [] =
        fields_loop pre [] @ fields_loop [encoding_characters] [] @ fields_loop post []"
    using fields_loop_append [of pre "encoding_characters # post"]
      fields_loop_Cons [of encoding_characters post] by simp
  then show "elist self ! i =
           Node (fields_loop pre [] @ [Leaf [BAR], Leaf encoding_characters] @ fields_loop post [])"
    using assms(2,3) by (simp add: I(2))
next
  let ?ls = "splitlines message"
  note I = init_Inr [OF assms(1)]
  let ?texts = "map (\<lambda>(s, l). segment_text s l) (zip (segments self) ?ls)"
  let ?out = "join [LF] ?texts"
  have len: "length ?texts = length ?ls" by (simp add: I(1))
  have nth: "j < length ?ls \<Longrightarrow> ?texts ! j = segment_text (segments self ! j) (?ls ! j)" for j
    by (simp add: I(1))
  have line_ok: "j < length ?ls \<Longrightarrow> c \<in> set (?ls ! j) \<Longrightarrow> \<not> is_linebreak c" for j c
    using splitlines_no_linebreak [of "?ls ! j" message c] by simp
  have seg_ok: "\<not> is_linebreak c \<and> c \<noteq> BAR"
    if "j < length ?ls" "c \<in> set (segments self ! j)" for j c
  proof -
    from table_entry_chars [OF assms(1) that]
    consider "c \<in> set (segment_id (?ls ! j))" | "c = USCORE" | "is_digit c" by blast
    then show ?thesis
    proof cases
      case 1
      then show ?thesis
        using segment_id_subset [of "?ls ! j"] line_ok [OF that(1)] segment_id_no_bar [of "?ls ! j"]
        by auto
    next
      case 2
      then show ?thesis by (simp add: is_linebreak_def)
    next
      case 3
      then show ?thesis by (simp add: is_digit_not_bar is_digit_not_linebreak)
    qed
  qed
  have no_lf: "LF \<notin> set x" if "x \<in> set ?texts" for x
  proof
    assume lf: "LF \<in> set x"
    from that obtain j where j: "j < length ?ls" "x = segment_text (segments self ! j) (?ls ! j)"
      using len nth by (metis in_set_conv_nth)
    from lf j(2) consider "LF \<in> set (takeWhile (\<lambda>c. c \<noteq> USCORE) (segments self ! j))"
      | "LF \<in> set (join [BAR] (segment_fields (?ls ! j)))"
      by (auto simp: segment_text_def)
    then show False
    proof cases
      case 1
      then have "LF \<in> set (segments self ! j)" by (rule set_takeWhileD [THEN conjunct1])
      then show False using seg_ok [OF j(1)] by (auto simp: is_linebreak_def)
    next
      case 2
      then obtain f where "f \<in> set (segment_fields (?ls ! j))" "LF \<in> set f"
        using set_join [of "[BAR]" "segment_fields (?ls ! j)"] by auto
      then have "LF \<in> set (?ls ! j)" using segment_fields_subset by blast
      then show False using line_ok [OF j(1)] by (auto simp: is_linebreak_def)
    qed
  qed
  have ne: "?texts \<noteq> []" using len assms(2) by auto
  have sp: "py_split LF ?out = ?texts"
    using ne no_lf by (rule py_split_join)
  have bar: "BAR \<notin> set (segments self ! i)"
    using seg_ok [OF assms(2)] by auto
  have "segment_fields (?texts ! i) = segment_fields (?ls ! i)"
    unfolding nth [OF assms(2)] using bar assms(3) by (intro segment_fields_text) simp_all
  then have "i < length (py_split LF ?out) \<and>
             segment_fields (py_split LF ?out ! i) = pre @ encoding_characters # post"
    unfolding sp using len assms(2,3) by simp
  then show "\<exists>self' out. list_to_hl7 self = Inr self' \<and> hl7 self' = Some out \<and>
           i < length (py_split LF out) \<and>
           segment_fields (py_split LF out ! i) = pre @ encoding_characters # post"
    using list_to_hl7_init [OF assms(1)] by auto
qed

section \<open>The serializer\<close>

text \<open>
  C1, as stated, fails. The parser accepts more than the serializer gives back: segments
  ended by carriage returns come back separated by newlines, a line without a field
  delimiter comes back with one, and a blank last line comes back as a field delimiter.
  None of the three differences is trailing whitespace.
\<close>

theorem round_trip_changes_text:
  "reserialized carriage_return_message = Inr (Some (''MSH|a'' @ [LF] @ ''EVN|b'')) \<and>
   rstrip (''MSH|a'' @ [LF] @ ''EVN|b'') \<noteq> rstrip carriage_return_message \<and>
   reserialized bare_line_message = Inr (Some (''MSH|a'' @ [LF] @ ''ZZZ|'')) \<and>
   rstrip (''MSH|a'' @ [LF] @ ''ZZZ|'') \<noteq> rstrip bare_line_message \<and>
   reserialized blank_line_message = Inr (Some (''MSH|a'' @ [LF] @ ''|'')) \<and>
   rstrip (''MSH|a'' @ [LF] @ ''|'') \<noteq> rstrip blank_line_message"
  by code_simp

text \<open>
  C1, amended. For every newline message the constructor succeeds, \<open>list_to_hl7\<close>
  succeeds, and the text it stores is the message itself or the message without its final
  newline; so the two are equal modulo trailing whitespace.
\<close>

theorem round_trip:
  "newline_message m \<Longrightarrow>
   \<exists>self self' out. init m = Inr self \<and> list_to_hl7 self = Inr self' \<and>
     hl7 self' = Some out \<and> (m = out \<or> m = out @ [LF]) \<and> rstrip out = rstrip m"
  by (rule round_trip_newline_message)

theorem round_trip_witness:
  "newline_message scenario_message \<and>
   (\<exists>self self' out. init scenario_message = Inr self \<and> list_to_hl7 self = Inr self' \<and>
     hl7 self' = Some out \<and> (scenario_message = out \<or> scenario_message = out @ [LF]) \<and>
     rstrip out = rstrip scenario_message)"
proof -
  have h: "newline_message scenario_message"
    by code_simp
  from round_trip [OF h] h show ?thesis
    by blast
qed

text \<open>
  The other conditions are needed as well: an identifier is cut at its first underscore,
  a carriage return before the newline is dropped, and with an empty identifier the
  constructor can raise \<open>IndexError\<close>.
\<close>

lemma round_trip_needs_plain_lines:
  "reserialized ''Z_1|a'' = Inr (Some ''Z|a'')"
  "reserialized (''MSH|a'' @ [CR, LF] @ ''EVN|b'') = Inr (Some (''MSH|a'' @ [LF] @ ''EVN|b''))"
  "reserialized ''|a|b'' = Inl IndexError"
  by code_simp+

text \<open>
  C3, as stated, fails: the field gives two leaves, the field delimiter and the encoding
  characters, not one.
\<close>

theorem encoding_field_is_two_leaves:
  "\<not> isl (init encoding_only_message) \<and>
   elist (projr (init encoding_only_message)) \<noteq> [Node [Leaf encoding_characters]] \<and>
   elist (projr (init encoding_only_message)) = [Node [Leaf [BAR], Leaf encoding_characters]]"
  by code_simp

text \<open>
  C3, amended. For every message and every field of it that equals the encoding
  characters: in the parsed segment, between the leaves of the fields before it and the
  leaves of the fields after it, stand exactly the leaf \<open>|\<close> and the unsplit leaf of the
  encoding characters; and the serialized text has the same fields on the same line, the
  encoding characters among them verbatim.
\<close>

theorem encoding_field_round_trip:
  "init message = Inr self \<Longrightarrow> i < length (splitlines message) \<Longrightarrow>
   segment_fields (splitlines message ! i) = pre @ encoding_characters # post \<Longrightarrow>
   elist self ! i =
     Node (fields_loop pre [] @ [Leaf [BAR], Leaf encoding_characters] @ fields_loop post []) \<and>
   (\<exists>self' out. list_to_hl7 self = Inr self' \<and> hl7 self' = Some out \<and>
      i < length (py_split LF out) \<and>
      segment_fields (py_split LF out ! i) = pre @ encoding_characters # post)"
  using encoding_field [of message self i pre post] by blast

theorem encoding_field_round_trip_witness:
  "init scenario_message = Inr (projr (init scenario_message)) \<and>
   0 < length (splitlines scenario_message) \<and>
   segment_fields (splitlines scenario_message ! 0) = [] @ encoding_characters # [''App'', ''Fac''] \<and>
   elist (projr (init scenario_message)) ! 0 =
     Node (fields_loop [] [] @ [Leaf [BAR], Leaf encoding_characters] @
           fields_loop [''App'', ''Fac''] []) \<and>
   (\<exists>self' out. list_to_hl7 (projr (init scenario_message)) = Inr self' \<and> hl7 self' = Some out \<and>
      0 < length (py_split LF out) \<and>
      segment_fields (py_split LF out ! 0) = [] @ encoding_characters # [''App'', ''Fac''])"
proof -
  have a: "init scenario_message = Inr (projr (init scenario_message))"
    by code_simp
  have b: "0 < length (splitlines scenario_message)"
    by code_simp
  have c: "segment_fields (splitlines scenario_message ! 0) =
           [] @ encoding_characters # [''App'', ''Fac'']"
    by code_simp
  from encoding_field_round_trip [OF a b c] a b c show ?thesis
    by blast
qed

section \<open>The end-to-end scenario\<close>

text \<open>
  C2, as stated, fails: the parser puts the field delimiter in front of the encoding
  characters as a leaf of its own, so \<open>MSH.1\<close> is \<open>|\<close> and every later key of the segment
  is one higher; and the serialized text has no final line break.
\<close>

theorem scenario_msh1_is_not_encoding_characters:
  "\<not> isl (init scenario_message) \<and>
   map_of (dict (projr (init scenario_message))) ''MSH.1'' \<noteq> Some encoding_characters \<and>
   map_of (dict (projr (init scenario_message))) ''MSH.2'' \<noteq> Some ''App'' \<and>
   map_of (dict (projr (init scenario_message))) ''MSH.3'' \<noteq> Some ''Fac'' \<and>
   \<not> isl (list_to_hl7 (projr (init scenario_message))) \<and>
   hl7 (projr (list_to_hl7 (projr (init scenario_message)))) \<noteq> Some scenario_message"
  by code_simp

text \<open>
  C2, amended. The scenario message parses into the two segments MSH and EVN; the mapping
  is MSH.1 -> \<open>|\<close>, MSH.2 -> the encoding characters, MSH.3 -> App, MSH.4 -> Fac,
  EVN.1 -> A01, EVN.2 -> 20110613083617; and it serializes to the original text without
  its final line break, which is the stripped text the object keeps as \<open>hl7_message\<close>.
\<close>

theorem scenario_end_to_end:
  "bind_err (init scenario_message) (\<lambda>self. Inr (segments self, length (elist self), dict self)) =
     Inr ([''MSH'', ''EVN''], 2,
          [(''MSH.1'', ''|''), (''MSH.2'', encoding_characters), (''MSH.3'', ''App''),
           (''MSH.4'', ''Fac''), (''EVN.1'', ''A01''), (''EVN.2'', ''20110613083617'')]) \<and>
   bind_err (init scenario_message)
     (\<lambda>self. bind_err (list_to_hl7 self) (\<lambda>self'. Inr (hl7 self', hl7_message self'))) =
     Inr (Some (butlast scenario_message), butlast scenario_message) \<and>
   scenario_message = butlast scenario_message @ [LF]"
  by code_simp

section \<open>Rebuilding the tree from the mapping\<close>

text \<open>
  \<open>int\<close> on key parts: digits, with the whitespace and the underscores \<open>int\<close> allows; a
  separator U+001F in front of the digits is not whitespace for \<open>int\<close>.
\<close>

lemma py_int_examples:
  "py_int ''12'' = Inr 12"
  "py_int '' 1_0 '' = Inr 10"
  "py_int ''-7'' = Inr (- 7)"
  "py_int [CHR 0x1F, CHR ''2''] = Inl ValueError"
  "py_int [CHR 0x85, CHR ''2''] = Inr 2"
  "py_int ''1__0'' = Inl ValueError"
  "py_int [] = Inl ValueError"
  by code_simp+

text \<open>
  C4. On a segment with two repeating fields next to each other, \<open>dict_to_list\<close> does not
  rebuild the tree: the second field's repetitions are appended to the last repetition of
  the first field.
\<close>

theorem dict_to_list_merges_repeating_fields:
  "bind_err (init two_repeating_fields)
     (\<lambda>self. bind_err (dict_to_list self) (\<lambda>self'. Inr (elist self, elist self'))) =
   Inr ([Node [Node [Node [Leaf ''a''], Node [Leaf ''b'']],
               Node [Node [Leaf ''c''], Node [Leaf ''d'']]]],
        [Node [Node [Node [Leaf ''a''], Node [Leaf ''b'', Leaf ''c'', Leaf ''d'']]]])"
  by code_simp

text \<open>
  C5. When a segment ends with a repeated field and the next segment starts with a plain
  field, \<open>dict_to_list\<close> puts the repetition group of the first segment into the
  accumulator of the second one.
\<close>

theorem dict_to_list_flushes_into_new_segment:
  "bind_err (init repetition_before_boundary)
     (\<lambda>self. bind_err (dict_to_list self) (\<lambda>self'. Inr (elist self, elist self'))) =
   Inr ([Node [Node [Node [Leaf ''a''], Node [Leaf ''b'']]], Node [Leaf ''c'']],
        [Node [], Node [Node [Node [Leaf ''a''], Node [Leaf ''b'']], Leaf ''c'']])"
  by code_simp

section \<open>The flat mapping\<close>

text \<open>
  C7, as stated, fails: two leaves can get the same key, and the second assignment
  replaces the first. PID, PID, PID_1 gives the keys PID.1, PID_1.1, PID_1.1, so three
  leaves give two entries.
\<close>

theorem mapping_smaller_than_leaves:
  "\<not> isl (init clash_message) \<and>
   length (dict (projr (init clash_message))) \<noteq> leaves (Node (elist (projr (init clash_message))))"
  by code_simp

text \<open>
  C7, amended. For every message whose raw segment identifiers are plain, the constructor
  succeeds, the mapping is the depth-first list of the leaves with their paths, it has as
  many entries as the tree has leaves, and its keys are pairwise distinct.
\<close>

theorem mapping_counts_leaves:
  "(\<forall>line \<in> set (splitlines message). plain_id (segment_id line)) \<Longrightarrow>
   \<exists>self. init message = Inr self \<and>
     dict self = concat (map (\<lambda>(s, t). tree_paths t s) (zip (segments self) (elist self))) \<and>
     length (dict self) = leaves (Node (elist self)) \<and>
     distinct (map fst (dict self))"
  by (rule mapping_of_plain_message) simp

theorem mapping_counts_leaves_witness:
  "list_all (\<lambda>line. plain_id (segment_id line)) (splitlines mixed_message) \<and>
   (\<exists>self. init mixed_message = Inr self \<and>
     dict self = concat (map (\<lambda>(s, t). tree_paths t s) (zip (segments self) (elist self))) \<and>
     length (dict self) = leaves (Node (elist self)) \<and>
     distinct (map fst (dict self)))"
proof -
  have h: "\<forall>line \<in> set (splitlines mixed_message). plain_id (segment_id line)"
    by code_simp
  from mapping_counts_leaves [OF h] h show ?thesis
    by (simp add: list_all_iff)
qed

section \<open>The array view\<close>

text \<open>
  C10. \<open>json_to_list\<close> returns the list rebuilt from the \<open>json\<close> attribute and hands the
  object back unchanged: \<open>elist\<close>, \<open>dict\<close>, \<open>json\<close> and \<open>hl7_message\<close> are as before, and
  \<open>list_to_hl7\<close> afterwards does what it would have done before the call.
\<close>

theorem json_to_list_frame:
  "snd (json_to_list self) = self \<and>
   elist (snd (json_to_list self)) = elist self \<and>
   dict (snd (json_to_list self)) = dict self \<and>
   json (snd (json_to_list self)) = json self \<and>
   hl7_message (snd (json_to_list self)) = hl7_message self \<and>
   list_to_hl7 (snd (json_to_list self)) = list_to_hl7 self \<and>
   list_to_hl7 (snd (json_to_list self)) =
     bind_err (gen_hl7 (segments self) (elist self) 0 False)
       (\<lambda>message. Inr (self\<lparr>hl7 := Some message\<rparr>))"
  by (simp add: json_to_list_def list_to_hl7_def)

text \<open>
  C6, as stated, fails: the array view is a dictionary keyed by the table entries, and
  PID, PID, PID_1 gives the entry PID_1 twice, so one segment is lost.
\<close>

theorem json_round_trip_loses_segment:
  "\<not> isl (init clash_message) \<and>
   fst (json_to_list (projr (init clash_message))) \<noteq> elist (projr (init clash_message))"
  by code_simp

text \<open>
  C6, amended. For every tree the parser produces together with a table of pairwise
  distinct entries, \<open>json_to_list\<close> returns the tree itself.
\<close>

theorem json_round_trip_distinct:
  "init message = Inr self \<Longrightarrow> distinct (segments self) \<Longrightarrow>
   fst (json_to_list self) = elist self"
  by (rule json_round_trip)

theorem json_round_trip_distinct_witness:
  "init mixed_message = Inr (projr (init mixed_message)) \<and>
   distinct (segments (projr (init mixed_message))) \<and>
   fst (json_to_list (projr (init mixed_message))) = elist (projr (init mixed_message))"
proof -
  have a: "init mixed_message = Inr (projr (init mixed_message))"
    by code_simp
  have b: "distinct (segments (projr (init mixed_message)))"
    by code_simp
  from json_round_trip_distinct [OF a b] a b show ?thesis
    by simp
qed

end
